theory Spec2Isabelle
  imports Main
begin

unbundle bit_operations_syntax

section \<open>The block graph\<close>

text \<open>
  A block of the node material is an object; the material and the connection points refer to
  it by reference.  A reference is a \<open>block_id\<close> and the objects live in a store
  \<open>block_id \<Rightarrow> block\<close>, so that \<open>indexOf\<close> on a list of blocks and
  \<open>block !== node\<close> compare identities, as the TypeScript does.

  An input connection point holds \<open>connectedPoint\<close>: the output point it is linked to,
  given by the owner block of that output and the output's name.
\<close>

type_synonym block_id = nat

record connection_input =
  inputName :: string
  connectedPoint :: "(block_id \<times> string) option"
  inputVariableName :: string

record connection_output =
  outputName :: string
  outputVariableName :: string

text \<open>
  Modelled from the spec: the enum \<open>NodeMaterialBlockTargets\<close> is declared outside the
  given sources.  The target affinity is "vertex-only, fragment-only, or both"; the material
  tests it with a bit mask (\<open>node.target & Vertex\<close>), so the values are flags and
  \<open>VertexAndFragment\<close> is the union of the two stage flags.
\<close>

definition Vertex :: int where "Vertex = 1"
definition Fragment :: int where "Fragment = 2"
definition Neutral :: int where "Neutral = 4"
definition VertexAndFragment :: int where "VertexAndFragment = Vertex OR Fragment"

record block =
  className :: string
  blockName :: string
  uniqueId :: nat
  target :: "int option"
  isUnique :: bool
  isInput :: bool
  isTeleportOut :: bool
  entryPoint :: "block_id option"
  tempEntryPointUniqueId :: "nat option"
  inputs :: "connection_input list"
  outputs :: "connection_output list"
  buildId :: int
  preparationId :: int

datatype NodeMaterialModes = Material | PostProcess | Particle | ProceduralTexture

text \<open>
  The per-stage build state and the shared build data.  Only the fields that the material
  itself writes in \<open>build\<close> are kept; what the blocks emit is behind the block hooks below.
\<close>

record buildState =
  builtCompilationString :: string
  compilationString :: string
  uniforms :: "string list"
  samplers :: "string list"
  attributes :: "string list"
  supportUniformBuffers :: bool
  stateTarget :: int
  uniformDeclaration :: string
  constantDeclaration :: string

record sharedData =
  sharedFragmentOutputNodes :: "block_id list"
  sharedBuildId :: int
  emitComments :: bool
  sharedVerbose :: bool
  allowEmptyVertexProgram :: bool

record material =
  blocks :: "block_id \<Rightarrow> block"
  vertexOutputNodes :: "block_id list"
  fragmentOutputNodes :: "block_id list"
  attachedBlocks :: "block_id list"
  mode :: NodeMaterialModes
  materialBuildId :: int
  buildIdGenerator :: int
  buildWasSuccessful :: bool
  vertexCompilationState :: "buildState option"
  fragmentCompilationState :: "buildState option"
  materialSharedData :: "sharedData option"
  optionEmitComments :: bool

datatype error =
    NotAnOutputNode
  | NoVertexOutputNode
  | NoFragmentOutputNode
  | MultipleBlocks string
  | BuildFailed string
  | TypeError

text \<open>
  What a call does: it returns, it throws (the material is left as it was at the
  \<open>throw\<close>), or the recursion budget of the model ran out.
\<close>

datatype 'a outcome = Return 'a | Throw error material | OutOfFuel

fun bindO :: "'a outcome \<Rightarrow> ('a \<Rightarrow> 'b outcome) \<Rightarrow> 'b outcome" where
  "bindO (Return a) g = g a"
| "bindO (Throw e m) g = Throw e m"
| "bindO OutOfFuel g = OutOfFuel"

fun foldO :: "('x \<Rightarrow> 's \<Rightarrow> 's outcome) \<Rightarrow> 'x list \<Rightarrow> 's \<Rightarrow> 's outcome" where
  "foldO g [] s = Return s"
| "foldO g (x # xs) s = bindO (g x s) (foldO g xs)"

fun foldM :: "('x \<Rightarrow> 's \<Rightarrow> 's option) \<Rightarrow> 'x list \<Rightarrow> 's \<Rightarrow> 's option" where
  "foldM g [] s = Some s"
| "foldM g (x # xs) s = (case g x s of None \<Rightarrow> None | Some s' \<Rightarrow> foldM g xs s')"

section \<open>Output nodes\<close>

definition setTarget :: "block_id \<Rightarrow> int \<Rightarrow> material \<Rightarrow> material" where
  "setTarget node t m = m\<lparr>blocks := (blocks m)(node := (blocks m node)\<lparr>target := Some t\<rparr>)\<rparr>"

definition addVertexOutputNode :: "block_id \<Rightarrow> material \<Rightarrow> material" where
  "addVertexOutputNode node m =
     (if node \<in> set (vertexOutputNodes m) then m
      else (setTarget node Vertex m)\<lparr>vertexOutputNodes := vertexOutputNodes m @ [node]\<rparr>)"

definition addFragmentOutputNode :: "block_id \<Rightarrow> material \<Rightarrow> material" where
  "addFragmentOutputNode node m =
     (if node \<in> set (fragmentOutputNodes m) then m
      else (setTarget node Fragment m)\<lparr>fragmentOutputNodes := fragmentOutputNodes m @ [node]\<rparr>)"

text \<open>
  \<open>addOutputNode\<close> reads \<open>node.target\<close> three times: for the null test, for the vertex
  test, and again, after \<open>_addVertexOutputNode\<close> may have overwritten it, for the fragment
  test.
\<close>

definition addOutputNode :: "block_id \<Rightarrow> material \<Rightarrow> material outcome" where
  "addOutputNode node m =
     (case target (blocks m node) of
        None \<Rightarrow> Throw NotAnOutputNode m
      | Some t \<Rightarrow>
          (let m1 = (if t AND Vertex \<noteq> 0 then addVertexOutputNode node m else m) in
           case target (blocks m1 node) of
             None \<Rightarrow> Return m1
           | Some t1 \<Rightarrow>
               Return (if t1 AND Fragment \<noteq> 0 then addFragmentOutputNode node m1 else m1)))"

text \<open>A material with no block attached; every reference holds a block with no port.\<close>

definition emptyBlock :: block where
  "emptyBlock = \<lparr>className = '''', blockName = '''', uniqueId = 0, target = None,
     isUnique = False, isInput = False, isTeleportOut = False, entryPoint = None,
     tempEntryPointUniqueId = None, inputs = [], outputs = [], buildId = 0,
     preparationId = 0\<rparr>"

definition emptyMaterial :: material where
  "emptyMaterial = \<lparr>blocks = (\<lambda>_. emptyBlock), vertexOutputNodes = [], fragmentOutputNodes = [],
     attachedBlocks = [], mode = Material, materialBuildId = 0, buildIdGenerator = 1,
     buildWasSuccessful = False, vertexCompilationState = None,
     fragmentCompilationState = None, materialSharedData = None,
     optionEmitComments = False\<rparr>"

section \<open>Walking the graph\<close>

type_synonym store = "block_id \<Rightarrow> block"

text \<open>
  The three recursive walks of the material (\<open>_initializeBlock\<close>, \<open>_resetDualBlocks\<close>,
  \<open>_gatherBlocks\<close>) follow the same links of a node: the owner block of the connected
  point of each input, in input order, when that owner is not the node itself, and then the
  entry point of a teleport-out block.  The recursion budget (the first argument) stands
  for the call stack: a walk that runs out of it has not returned.
\<close>

subsection \<open>\<open>_resetDualBlocks\<close>\<close>

definition resetDualInput ::
  "(block_id \<Rightarrow> store \<Rightarrow> store option) \<Rightarrow> block_id \<Rightarrow> connection_input \<Rightarrow> store \<Rightarrow> store option"
where
  "resetDualInput reset node input hp =
     (case connectedPoint input of
        None \<Rightarrow> Some hp
      | Some (block, _) \<Rightarrow> if block \<noteq> node then reset block hp else Some hp)"

primrec resetDualBlocks :: "nat \<Rightarrow> block_id \<Rightarrow> int \<Rightarrow> store \<Rightarrow> store option" where
  "resetDualBlocks 0 node ident hp = None"
| "resetDualBlocks (Suc fuel) node ident hp =
     (let hp1 = (if target (hp node) = Some VertexAndFragment
                 then hp(node := (hp node)\<lparr>buildId := ident\<rparr>) else hp) in
      case foldM (resetDualInput (\<lambda>block. resetDualBlocks fuel block ident) node)
             (inputs (hp1 node)) hp1 of
        None \<Rightarrow> None
      | Some hp2 \<Rightarrow>
          (if isTeleportOut (hp2 node) then
             (case entryPoint (hp2 node) of
                Some entry \<Rightarrow> resetDualBlocks fuel entry ident hp2
              | None \<Rightarrow> Some hp2)
           else Some hp2))"

subsection \<open>\<open>_gatherBlocks\<close>\<close>

definition gatherInput ::
  "(block_id \<Rightarrow> block_id list \<Rightarrow> block_id list option) \<Rightarrow> block_id \<Rightarrow> connection_input
     \<Rightarrow> block_id list \<Rightarrow> block_id list option"
where
  "gatherInput gather rootNode input list =
     (case connectedPoint input of
        None \<Rightarrow> Some list
      | Some (block, _) \<Rightarrow> if block \<noteq> rootNode then gather block list else Some list)"

primrec gatherBlocks :: "nat \<Rightarrow> store \<Rightarrow> block_id \<Rightarrow> block_id list \<Rightarrow> block_id list option" where
  "gatherBlocks 0 hp rootNode list = None"
| "gatherBlocks (Suc fuel) hp rootNode list =
     (if rootNode \<in> set list then Some list
      else
        case foldM (gatherInput (gatherBlocks fuel hp) rootNode) (inputs (hp rootNode))
               (list @ [rootNode]) of
          None \<Rightarrow> None
        | Some list2 \<Rightarrow>
            (if isTeleportOut (hp rootNode) then
               (case entryPoint (hp rootNode) of
                  Some entry \<Rightarrow> gatherBlocks fuel hp entry list2
                | None \<Rightarrow> Some list2)
             else Some list2))"

subsection \<open>\<open>_initializeBlock\<close>\<close>

text \<open>
  The methods of the blocks (\<open>initialize\<close>, \<open>autoConfigure\<close>, \<open>build\<close>), the
  optimizers, \<open>finalize\<close> of a build state and \<open>emitErrors\<close> of the shared data are
  outside the given sources.  They are parameters of the model: each is a function on the
  material state (\<open>emitErrors\<close> gives the message it throws, if any).  A build state is
  named by its stage (\<open>Vertex\<close> or \<open>Fragment\<close>).
\<close>

record hooks =
  blockInitialize :: "int \<Rightarrow> block_id \<Rightarrow> material \<Rightarrow> material"
  blockAutoConfigure :: "block_id \<Rightarrow> material \<Rightarrow> material"
  optimizers :: "(material \<Rightarrow> material) list"
  blockBuild :: "int \<Rightarrow> block_id list \<Rightarrow> block_id \<Rightarrow> material \<Rightarrow> material"
  stateFinalize :: "int \<Rightarrow> material \<Rightarrow> material"
  emitErrors :: "material \<Rightarrow> string option"
  supportsUniformBuffers :: bool

type_synonym init_state = "material \<times> block_id list"

definition updateBlock :: "block_id \<Rightarrow> (block \<Rightarrow> block) \<Rightarrow> material \<Rightarrow> material" where
  "updateBlock node g m = m\<lparr>blocks := (blocks m)(node := g (blocks m node))\<rparr>"

definition clearInputVariableName :: "block_id \<Rightarrow> nat \<Rightarrow> material \<Rightarrow> material" where
  "clearInputVariableName node i m =
     updateBlock node
       (\<lambda>b. if i < length (inputs b)
            then b\<lparr>inputs := (inputs b)[i := (inputs b ! i)\<lparr>inputVariableName := ''''\<rparr>]\<rparr>
            else b) m"

definition clearOutputVariableNames :: "block_id \<Rightarrow> material \<Rightarrow> material" where
  "clearOutputVariableNames node m =
     updateBlock node
       (\<lambda>b. b\<lparr>outputs := map (\<lambda>out. out\<lparr>outputVariableName := ''''\<rparr>) (outputs b)\<rparr>) m"

text \<open>
  The attachment step of \<open>_initializeBlock\<close>: a node that is not yet attached is pushed
  on \<open>attachedBlocks\<close>, after the uniqueness test when the node \<open>isUnique\<close>.
\<close>

definition attachBlock :: "block_id \<Rightarrow> material \<Rightarrow> material outcome" where
  "attachBlock node m =
     (if node \<in> set (attachedBlocks m) then Return m
      else if isUnique (blocks m node)
              \<and> list_ex (\<lambda>other. className (blocks m other) = className (blocks m node))
                   (attachedBlocks m)
      then Throw (MultipleBlocks (className (blocks m node))) m
      else Return (m\<lparr>attachedBlocks := attachedBlocks m @ [node]\<rparr>))"

definition processInitializeOnLink ::
  "(block_id \<Rightarrow> init_state \<Rightarrow> init_state outcome) \<Rightarrow> block_id \<Rightarrow> int \<Rightarrow> init_state
     \<Rightarrow> init_state outcome"
where
  "processInitializeOnLink init block stage s =
     (case s of (m, nodesToProcessForOtherBuildState) \<Rightarrow>
        init block
          (m,
           if target (blocks m block) = Some VertexAndFragment
           then nodesToProcessForOtherBuildState @ [block]
           else if stage = Fragment \<and> target (blocks m block) = Some Vertex
                   \<and> preparationId (blocks m block) \<noteq> materialBuildId m
           then nodesToProcessForOtherBuildState @ [block]
           else nodesToProcessForOtherBuildState))"

text \<open>
  One round of the loop over \<open>node.inputs\<close>.  The connection points are those the node had
  when the loop started (the list the loop runs over); the write of the variable name goes
  to the current state.
\<close>

definition initializeInput ::
  "(block_id \<Rightarrow> init_state \<Rightarrow> init_state outcome) \<Rightarrow> block_id \<Rightarrow> int
     \<Rightarrow> nat \<times> connection_input \<Rightarrow> init_state \<Rightarrow> init_state outcome"
where
  "initializeInput init node stage indexed s =
     (case indexed of (i, input) \<Rightarrow>
      case s of (m, others) \<Rightarrow>
        (let m1 = clearInputVariableName node i m in
         case connectedPoint input of
           None \<Rightarrow> Return (m1, others)
         | Some (block, _) \<Rightarrow>
             if block \<noteq> node then processInitializeOnLink init block stage (m1, others)
             else Return (m1, others)))"

primrec initializeBlock ::
  "hooks \<Rightarrow> nat \<Rightarrow> int \<Rightarrow> bool \<Rightarrow> block_id \<Rightarrow> init_state \<Rightarrow> init_state outcome"
where
  "initializeBlock H 0 stage autoConfigure node s = OutOfFuel"
| "initializeBlock H (Suc fuel) stage autoConfigure node s =
     (case s of (m, others) \<Rightarrow>
        (let m1 = blockInitialize H stage node m;
             m2 = (if autoConfigure then blockAutoConfigure H node m1 else m1);
             m3 = updateBlock node (\<lambda>b. b\<lparr>preparationId := materialBuildId m2\<rparr>) m2
         in
         bindO (attachBlock node m3) (\<lambda>m4.
         bindO (foldO (initializeInput (initializeBlock H fuel stage autoConfigure) node stage)
                  (enumerate 0 (inputs (blocks m4 node))) (m4, others)) (\<lambda>s5.
         bindO (if isTeleportOut (blocks (fst s5) node) then
                  (case entryPoint (blocks (fst s5) node) of
                     Some entry \<Rightarrow>
                       processInitializeOnLink (initializeBlock H fuel stage autoConfigure)
                         entry stage s5
                   | None \<Rightarrow> Return s5)
                else Return s5) (\<lambda>s6.
         Return (clearOutputVariableNames node (fst s6), snd s6))))))"

section \<open>Links and reachability\<close>

text \<open>
  The blocks a walk goes to from a node, in the order the source visits them: the owners
  of the connected inputs other than the node itself, then the teleport entry point.
\<close>

fun linkedBlocks :: "block_id \<Rightarrow> connection_input list \<Rightarrow> block_id list" where
  "linkedBlocks node [] = []"
| "linkedBlocks node (input # rest) =
     (case connectedPoint input of
        None \<Rightarrow> linkedBlocks node rest
      | Some (block, _) \<Rightarrow>
          if block \<noteq> node then block # linkedBlocks node rest else linkedBlocks node rest)"

definition teleportLink :: "block \<Rightarrow> block_id list" where
  "teleportLink b =
     (if isTeleportOut b then (case entryPoint b of Some entry \<Rightarrow> [entry] | None \<Rightarrow> [])
      else [])"

definition links :: "store \<Rightarrow> block_id \<Rightarrow> block_id list" where
  "links hp node = linkedBlocks node (inputs (hp node)) @ teleportLink (hp node)"

definition reachable :: "store \<Rightarrow> block_id \<Rightarrow> block_id \<Rightarrow> bool" where
  "reachable hp a b = ((a, b) \<in> {(x, y). y \<in> set (links hp x)}\<^sup>*)"

text \<open>
  \<open>stamped ident hp hp'\<close>: the store \<open>hp'\<close> is \<open>hp\<close> except that some blocks of target
  \<open>VertexAndFragment\<close> have their \<open>buildId\<close> set to \<open>ident\<close>.
\<close>

definition stamped :: "int \<Rightarrow> store \<Rightarrow> store \<Rightarrow> bool" where
  "stamped ident hp hp' =
     (\<forall>b. hp' b = hp b
          \<or> (target (hp b) = Some VertexAndFragment \<and> hp' b = (hp b)\<lparr>buildId := ident\<rparr>))"

text \<open>
  What the walks read of a block: the connected points of its inputs, its teleport link,
  its class name and its uniqueness flag.  The block hooks \<open>initialize\<close> and
  \<open>autoConfigure\<close> are said to preserve the graph when they change none of these for any
  block and leave \<open>attachedBlocks\<close> alone.
\<close>

definition wiring ::
  "block \<Rightarrow> (block_id \<times> string) option list \<times> bool \<times> block_id option \<times> string \<times> bool"
where
  "wiring b = (map connectedPoint (inputs b), isTeleportOut b, entryPoint b, className b, isUnique b)"

definition keepsGraph :: "(material \<Rightarrow> material) \<Rightarrow> bool" where
  "keepsGraph g =
     (\<forall>m. attachedBlocks (g m) = attachedBlocks m
          \<and> (\<forall>n. wiring (blocks (g m) n) = wiring (blocks m n)))"

definition graphPreservingHooks :: "hooks \<Rightarrow> bool" where
  "graphPreservingHooks H =
     ((\<forall>stage node. keepsGraph (blockInitialize H stage node))
      \<and> (\<forall>node. keepsGraph (blockAutoConfigure H node)))"

section \<open>Building the material\<close>

definition newBuildState :: "bool \<Rightarrow> int \<Rightarrow> buildState" where
  "newBuildState ubo stage =
     \<lparr>builtCompilationString = '''', compilationString = '''', uniforms = [], samplers = [],
      attributes = [], supportUniformBuffers = ubo, stateTarget = stage,
      uniformDeclaration = '''', constantDeclaration = ''''\<rparr>"

text \<open>The fresh pair of build states and the fresh shared data of a pass.\<close>

definition allocateBuildStates :: "hooks \<Rightarrow> bool \<Rightarrow> material \<Rightarrow> material" where
  "allocateBuildStates H verbose m =
     m\<lparr>vertexCompilationState := Some (newBuildState (supportsUniformBuffers H) Vertex),
       fragmentCompilationState := Some (newBuildState (supportsUniformBuffers H) Fragment),
       materialSharedData :=
         Some \<lparr>sharedFragmentOutputNodes = fragmentOutputNodes m,
               sharedBuildId = materialBuildId m,
               emitComments = optionEmitComments m,
               sharedVerbose = verbose,
               allowEmptyVertexProgram = (mode m = Particle)\<rparr>\<rparr>"

text \<open>
  The two initialization loops.  The state is the material with the two local lists
  \<open>vertexNodes\<close> and \<open>fragmentNodes\<close>; each loop pushes the root on its own list and hands
  the other list to \<open>_initializeBlock\<close> as the cross-stage worklist.
\<close>

type_synonym build_state = "material \<times> block_id list \<times> block_id list"

definition initializeVertexRoot ::
  "hooks \<Rightarrow> nat \<Rightarrow> bool \<Rightarrow> block_id \<Rightarrow> build_state \<Rightarrow> build_state outcome"
where
  "initializeVertexRoot H fuel autoConfigure vertexOutputNode s =
     (case s of (m, vertexNodes, fragmentNodes) \<Rightarrow>
        bindO (initializeBlock H fuel Vertex autoConfigure vertexOutputNode (m, fragmentNodes))
          (\<lambda>r. Return (fst r, vertexNodes @ [vertexOutputNode], snd r)))"

definition initializeFragmentRoot ::
  "hooks \<Rightarrow> nat \<Rightarrow> bool \<Rightarrow> block_id \<Rightarrow> build_state \<Rightarrow> build_state outcome"
where
  "initializeFragmentRoot H fuel autoConfigure fragmentOutputNode s =
     (case s of (m, vertexNodes, fragmentNodes) \<Rightarrow>
        bindO (initializeBlock H fuel Fragment autoConfigure fragmentOutputNode
                 (m, vertexNodes))
          (\<lambda>r. Return (fst r, snd r, fragmentNodes @ [fragmentOutputNode])))"

definition initializeBlocks :: "hooks \<Rightarrow> nat \<Rightarrow> bool \<Rightarrow> material \<Rightarrow> build_state outcome" where
  "initializeBlocks H fuel autoConfigure m =
     bindO (foldO (initializeVertexRoot H fuel autoConfigure) (vertexOutputNodes m) (m, [], []))
       (foldO (initializeFragmentRoot H fuel autoConfigure) (fragmentOutputNodes m))"

definition optimize :: "hooks \<Rightarrow> material \<Rightarrow> material" where
  "optimize H m = fold (\<lambda>optimizer. optimizer) (optimizers H) m"

definition buildStage :: "hooks \<Rightarrow> int \<Rightarrow> block_id list \<Rightarrow> material \<Rightarrow> material" where
  "buildStage H stage nodes m = fold (\<lambda>outputNode. blockBuild H stage nodes outputNode) nodes m"

text \<open>
  The fragment state takes a copy of the uniforms of the vertex state and its uniform and
  constant declarations.  Both states were allocated at the start of the pass.
\<close>

definition copyVertexDeclarations :: "material \<Rightarrow> material" where
  "copyVertexDeclarations m =
     (case (vertexCompilationState m, fragmentCompilationState m) of
        (Some vs, Some fs) \<Rightarrow>
          m\<lparr>fragmentCompilationState :=
              Some (fs\<lparr>uniforms := uniforms vs,
                       uniformDeclaration := uniformDeclaration vs,
                       constantDeclaration := constantDeclaration vs\<rparr>)\<rparr>
      | _ \<Rightarrow> m)"

text \<open>
  The loop \<open>for (const fragmentOutputNode of fragmentNodes)
  this._resetDualBlocks(fragmentOutputNode, this._buildId - 1)\<close>.
\<close>

definition resetDualBlocksOfNodes :: "nat \<Rightarrow> block_id list \<Rightarrow> material \<Rightarrow> material outcome" where
  "resetDualBlocksOfNodes fuel fragmentNodes m =
     (case foldM (\<lambda>fragmentOutputNode. resetDualBlocks fuel fragmentOutputNode (materialBuildId m - 1))
             fragmentNodes (blocks m) of
        None \<Rightarrow> OutOfFuel
      | Some hp \<Rightarrow> Return (m\<lparr>blocks := hp\<rparr>))"

definition takeNewBuildId :: "material \<Rightarrow> material" where
  "takeNewBuildId m =
     m\<lparr>materialBuildId := buildIdGenerator m, buildIdGenerator := buildIdGenerator m + 1\<rparr>"

text \<open>
  \<open>build(verbose, updateBuildId, autoConfigure)\<close>, in three parts: the pass up to the
  end of the vertex stage (allocation, initialization, optimizers, vertex build, copy of
  the vertex declarations), the reset of the dual blocks, and the pass from the fragment
  build on.  What follows the pass inside the scene (the log, the build observable, the
  defines of the sub-meshes, the pre-pass renderer) is not part of the material state and
  is left out.
\<close>

definition buildVertexStage ::
  "hooks \<Rightarrow> nat \<Rightarrow> bool \<Rightarrow> bool \<Rightarrow> material \<Rightarrow> build_state outcome"
where
  "buildVertexStage H fuel verbose autoConfigure m =
     bindO (initializeBlocks H fuel autoConfigure (allocateBuildStates H verbose m))
       (\<lambda>s. case s of (m2, vertexNodes, fragmentNodes) \<Rightarrow>
          (let m3 = optimize H m2;
               m4 = buildStage H Vertex vertexNodes m3
           in Return (copyVertexDeclarations m4, vertexNodes, fragmentNodes)))"

definition buildFragmentStage :: "hooks \<Rightarrow> bool \<Rightarrow> block_id list \<Rightarrow> material \<Rightarrow> material outcome" where
  "buildFragmentStage H updateBuildId fragmentNodes m6 =
     (let m7 = buildStage H Fragment fragmentNodes m6;
          m8 = stateFinalize H Fragment (stateFinalize H Vertex m7);
          m9 = (if updateBuildId then takeNewBuildId m8 else m8)
      in
      case emitErrors H m9 of
        Some message \<Rightarrow> Throw (BuildFailed message) m9
      | None \<Rightarrow> Return (m9\<lparr>buildWasSuccessful := True\<rparr>))"

definition build :: "hooks \<Rightarrow> nat \<Rightarrow> bool \<Rightarrow> bool \<Rightarrow> bool \<Rightarrow> material \<Rightarrow> material outcome" where
  "build H fuel verbose updateBuildId autoConfigure m =
     (let autoConfigure1 =
            (if vertexCompilationState m = None \<and> \<not> autoConfigure then True else autoConfigure);
          m1 = m\<lparr>buildWasSuccessful := False\<rparr>;
          allowEmptyVertexProgram = (mode m1 = Particle)
      in
      if vertexOutputNodes m1 = [] \<and> \<not> allowEmptyVertexProgram
      then Throw NoVertexOutputNode m1
      else if fragmentOutputNodes m1 = [] then Throw NoFragmentOutputNode m1
      else
        bindO (buildVertexStage H fuel verbose autoConfigure1 m1)
          (\<lambda>s. case s of (m5, vertexNodes, fragmentNodes) \<Rightarrow>
             bindO (resetDualBlocksOfNodes fuel fragmentNodes m5)
               (buildFragmentStage H updateBuildId fragmentNodes)))"

text \<open>Hooks that leave the material as it is and report no error.\<close>

definition idleHooks :: hooks where
  "idleHooks = \<lparr>blockInitialize = (\<lambda>stage node m. m), blockAutoConfigure = (\<lambda>node m. m),
     optimizers = [], blockBuild = (\<lambda>stage nodes node m. m), stateFinalize = (\<lambda>stage m. m),
     emitErrors = (\<lambda>m. None), supportsUniformBuffers = True\<rparr>"

section \<open>Invariants of the initialization walk\<close>

text \<open>
  The walk of \<open>_initializeBlock\<close> is followed against a fixed graph \<open>G\<close> (the store when
  the pass starts) and the set \<open>A0\<close> of the blocks attached at that time.
  \<open>uniqueOk\<close>: two distinct attached blocks that are both unique and of the same class
  were both attached before the pass.  \<open>descending\<close>: below the node, every link goes to
  a block of smaller rank (so the graph below the node has no cycle).
\<close>

definition uniqueOk :: "store \<Rightarrow> block_id set \<Rightarrow> block_id list \<Rightarrow> bool" where
  "uniqueOk G A0 A =
     (\<forall>x y. x \<in> set A \<and> y \<in> set A \<and> x \<noteq> y \<and> isUnique (G x) \<and> isUnique (G y)
              \<and> className (G x) = className (G y) \<longrightarrow> x \<in> A0 \<and> y \<in> A0)"

definition initInv :: "store \<Rightarrow> block_id set \<Rightarrow> material \<Rightarrow> bool" where
  "initInv G A0 m =
     ((\<forall>n. wiring (blocks m n) = wiring (G n)) \<and> A0 \<subseteq> set (attachedBlocks m)
      \<and> uniqueOk G A0 (attachedBlocks m))"

definition visits ::
  "store \<Rightarrow> block_id set \<Rightarrow> (block_id \<Rightarrow> material \<times> 'a \<Rightarrow> (material \<times> 'a) outcome) \<Rightarrow> bool"
where
  "visits G A0 init =
     (\<forall>node s r. initInv G A0 (fst s) \<longrightarrow> init node s = Return r \<longrightarrow>
        initInv G A0 (fst r) \<and> set (attachedBlocks (fst s)) \<subseteq> set (attachedBlocks (fst r))
        \<and> (\<forall>b. reachable G node b \<longrightarrow> b \<in> set (attachedBlocks (fst r))))"

definition descending :: "store \<Rightarrow> (block_id \<Rightarrow> nat) \<Rightarrow> block_id \<Rightarrow> bool" where
  "descending G rk node =
     (\<forall>a c. reachable G node a \<longrightarrow> c \<in> set (links G a) \<longrightarrow> rk c < rk a)"


definition throwsUnique :: "(block_id \<Rightarrow> 's \<Rightarrow> 's outcome) \<Rightarrow> bool" where
  "throwsUnique init =
     (\<forall>node s e m'. init node s = Throw e m' \<longrightarrow> (\<exists>c. e = MultipleBlocks c))"

section \<open>Example materials\<close>

definition plainBlock :: "string \<Rightarrow> int \<Rightarrow> block" where
  "plainBlock cls t = emptyBlock\<lparr>className := cls, target := Some t\<rparr>"

definition linkTo :: "string \<Rightarrow> block_id \<Rightarrow> string \<Rightarrow> connection_input" where
  "linkTo nm owner out =
     \<lparr>inputName = nm, connectedPoint = Some (owner, out), inputVariableName = ''''\<rparr>"

definition targetOf :: "block_id \<Rightarrow> material \<Rightarrow> int option" where
  "targetOf node m = target (blocks m node)"

text \<open>
  A block of target \<open>VertexAndFragment\<close> that is already a vertex output node: the state
  after \<open>addOutputNode\<close> followed by a write of the block's target.
\<close>

definition listedDualMaterial :: material where
  "listedDualMaterial = (setTarget 0 VertexAndFragment emptyMaterial)\<lparr>vertexOutputNodes := [0]\<rparr>"

text \<open>
  A fragment output (0) and a vertex output (2) that both read the output of a dual
  block (1).
\<close>

definition dualStore :: store where
  "dualStore = (\<lambda>_. emptyBlock)
     (0 := (plainBlock ''FragmentOutputBlock'' Fragment)\<lparr>inputs := [linkTo ''rgb'' 1 ''output'']\<rparr>,
      1 := plainBlock ''TextureBlock'' VertexAndFragment,
      2 := (plainBlock ''VertexOutputBlock'' Vertex)\<lparr>inputs := [linkTo ''vector'' 1 ''output'']\<rparr>)"

definition dualMaterial :: material where
  "dualMaterial =
     emptyMaterial\<lparr>blocks := dualStore, vertexOutputNodes := [2], fragmentOutputNodes := [0]\<rparr>"

definition dualRank :: "block_id \<Rightarrow> nat" where
  "dualRank n = (if n = 1 then 0 else 1)"

text \<open>
  A fragment output (0) that reads two blocks (1 and 2) of one class that is restricted to
  one instance, and a vertex output (3).  In \<open>duplicateMaterial\<close> no block is attached yet;
  in \<open>attachedDuplicateMaterial\<close> all four are, as they are after
  \<open>parseSerializedObject\<close>, which pushes every block it creates on \<open>attachedBlocks\<close>.
\<close>

definition duplicateStore :: store where
  "duplicateStore = (\<lambda>_. emptyBlock)
     (0 := (plainBlock ''FragmentOutputBlock'' Fragment)\<lparr>inputs :=
             [linkTo ''rgb'' 1 ''output'', linkTo ''a'' 2 ''output'']\<rparr>,
      1 := (plainBlock ''FragDepthBlock'' Fragment)\<lparr>isUnique := True\<rparr>,
      2 := (plainBlock ''FragDepthBlock'' Fragment)\<lparr>isUnique := True\<rparr>,
      3 := plainBlock ''VertexOutputBlock'' Vertex)"

definition duplicateMaterial :: material where
  "duplicateMaterial =
     emptyMaterial\<lparr>blocks := duplicateStore, vertexOutputNodes := [3], fragmentOutputNodes := [0]\<rparr>"

definition attachedDuplicateMaterial :: material where
  "attachedDuplicateMaterial = duplicateMaterial\<lparr>attachedBlocks := [0, 1, 2, 3]\<rparr>"

definition duplicateRank :: "block_id \<Rightarrow> nat" where
  "duplicateRank n = (if n = 0 then 1 else 0)"

text \<open>
  \<open>gathered hp S l l'\<close>: the list \<open>l'\<close> extends \<open>l\<close> by blocks of \<open>S\<close>, keeps it free of
  duplicates, and every block it adds has all its links in \<open>l'\<close>.
\<close>

definition gathered :: "store \<Rightarrow> block_id set \<Rightarrow> block_id list \<Rightarrow> block_id list \<Rightarrow> bool" where
  "gathered hp S l l' =
     (\<exists>new. l' = l @ new \<and> (distinct l \<longrightarrow> distinct l') \<and> set new \<subseteq> S
            \<and> (\<forall>x\<in>set new. set (links hp x) \<subseteq> set l'))"

text \<open>
  A fragment output (0) that reads a teleport-out block (1) and, through an ordinary link,
  a shared block (2); the entry point of the teleport-out is the teleport-in block (3),
  which reads the shared block too; the shared block reads an input block (4).
\<close>

definition teleportStore :: store where
  "teleportStore = (\<lambda>_. emptyBlock)
     (0 := (plainBlock ''FragmentOutputBlock'' Fragment)\<lparr>inputs :=
             [linkTo ''rgb'' 1 ''output'', linkTo ''a'' 2 ''output'']\<rparr>,
      1 := (plainBlock ''NodeMaterialTeleportOutBlock'' Neutral)\<lparr>isTeleportOut := True,
             entryPoint := Some 3\<rparr>,
      2 := (plainBlock ''ScaleBlock'' Neutral)\<lparr>inputs := [linkTo ''input'' 4 ''output'']\<rparr>,
      3 := (plainBlock ''NodeMaterialTeleportInBlock'' Neutral)\<lparr>inputs :=
             [linkTo ''input'' 2 ''output'']\<rparr>,
      4 := (plainBlock ''InputBlock'' Neutral)\<lparr>isInput := True\<rparr>)"

section \<open>The core material: defines, specialization and binding\<close>

subsection \<open>The defines of a sub-mesh\<close>

text \<open>
  \<open>NodeMaterialDefines\<close> keeps its values under string keys (\<open>defines["UV" + i]\<close>); the
  keys of this model hold booleans or numbers, and a key that was never set reads as
  \<open>None\<close> (\<open>undefined\<close>).

  Modelled from the spec: the base class \<open>MaterialDefines\<close> is outside the given sources.
  The defines carry "a dirty flag subdivided by category": the flag \<open>isDirty\<close> that
  \<open>_processDefines\<close> reads, and one flag per category.  Marking a category sets the
  category and the dirty flag; \<open>markAsUnprocessed\<close> sets the dirty flag alone, so that
  the readiness check is retried on the next frame; \<open>markAsProcessed\<close> clears them all.
\<close>

datatype defineValue = DefBool bool | DefNumber int

record materialDefines =
  defineValues :: "string \<Rightarrow> defineValue option"
  defineKeys :: "string list"
  isDirty :: bool
  areAttributesDirty :: bool
  areTexturesDirty :: bool
  areFresnelDirty :: bool
  areLightsDirty :: bool
  areLightsDisposed :: bool
  areMiscDirty :: bool
  arePrePassDirty :: bool
  areImageProcessingDirty :: bool

definition markAsAttributesDirty :: "materialDefines \<Rightarrow> materialDefines" where
  "markAsAttributesDirty d = d\<lparr>areAttributesDirty := True, isDirty := True\<rparr>"

definition markAsMiscDirty :: "materialDefines \<Rightarrow> materialDefines" where
  "markAsMiscDirty d = d\<lparr>areMiscDirty := True, isDirty := True\<rparr>"

definition markAsUnprocessed :: "materialDefines \<Rightarrow> materialDefines" where
  "markAsUnprocessed d = d\<lparr>isDirty := True\<rparr>"

definition markAsProcessed :: "materialDefines \<Rightarrow> materialDefines" where
  "markAsProcessed d =
     d\<lparr>isDirty := False, areAttributesDirty := False, areTexturesDirty := False,
       areFresnelDirty := False, areLightsDirty := False, areLightsDisposed := False,
       areMiscDirty := False, arePrePassDirty := False, areImageProcessingDirty := False\<rparr>"

text \<open>The dirty categories other than the attributes one.\<close>

definition otherCategories :: "materialDefines \<Rightarrow> bool list" where
  "otherCategories d =
     [areTexturesDirty d, areFresnelDirty d, areLightsDirty d, areLightsDisposed d,
      areMiscDirty d, arePrePassDirty d, areImageProcessingDirty d]"

text \<open>\<open>NodeMaterialDefines.setValue(name, value, markAsUnprocessedIfDirty)\<close>.\<close>

definition setValue :: "string \<Rightarrow> defineValue \<Rightarrow> bool \<Rightarrow> materialDefines \<Rightarrow> materialDefines" where
  "setValue name v markAsUnprocessedIfDirty d =
     (let d1 = (if defineValues d name = None then d\<lparr>defineKeys := defineKeys d @ [name]\<rparr> else d);
          d2 = (if markAsUnprocessedIfDirty \<and> defineValues d1 name \<noteq> Some v
                then markAsUnprocessed d1 else d1)
      in d2\<lparr>defineValues := (defineValues d2)(name \<mapsto> v)\<rparr>)"

text \<open>The assignment \<open>defines[key] = value\<close>.\<close>

definition assignDefine :: "string \<Rightarrow> bool \<Rightarrow> materialDefines \<Rightarrow> materialDefines" where
  "assignDefine key v d = d\<lparr>defineValues := (defineValues d)(key \<mapsto> DefBool v)\<rparr>"

subsection \<open>\<open>_prepareDefinesForAttributes\<close>\<close>

record mesh =
  isVerticesDataPresent :: "string \<Rightarrow> bool"
  useVertexColors :: bool

text \<open>
  The kinds of \<open>VertexBuffer\<close> and the constant \<open>MAX_SUPPORTED_UV_SETS\<close> are declared
  outside the given sources; \<open>NodeMaterialDefines\<close> declares \<open>UV1\<close> to \<open>UV6\<close>.
\<close>

definition NormalKind :: string where "NormalKind = ''normal''"
definition TangentKind :: string where "TangentKind = ''tangent''"
definition ColorKind :: string where "ColorKind = ''color''"
definition MAX_SUPPORTED_UV_SETS :: nat where "MAX_SUPPORTED_UV_SETS = 6"

fun numberToString :: "nat \<Rightarrow> string" where
  "numberToString n =
     (if n < 10 then [''0123456789'' ! n]
      else numberToString (n div 10) @ [''0123456789'' ! (n mod 10)])"

definition uvDefine :: "nat \<Rightarrow> string" where
  "uvDefine i = ''UV'' @ numberToString i"

definition uvKind :: "nat \<Rightarrow> string" where
  "uvKind i = ''uv'' @ (if i = 1 then '''' else numberToString i)"

text \<open>One round of the loop over the UV sets: the state is the defines and \<open>uvChanged\<close>.\<close>

definition prepareUV :: "mesh \<Rightarrow> nat \<Rightarrow> materialDefines \<times> bool \<Rightarrow> materialDefines \<times> bool" where
  "prepareUV mesh i s =
     (case s of (d, uvChanged) \<Rightarrow>
        (let oldUV = defineValues d (uvDefine i);
             d1 = assignDefine (uvDefine i) (isVerticesDataPresent mesh (uvKind i)) d
         in (d1, uvChanged \<or> defineValues d1 (uvDefine i) \<noteq> oldUV)))"

text \<open>
  \<open>PrepareDefinesForPrePass\<close> is outside the given sources; it is the parameter
  \<open>prePass\<close>, applied to the flag \<open>!oit\<close> and the defines.  \<open>oit\<close> stands for
  \<open>this.needAlphaBlendingForMesh(mesh) && scene.useOrderIndependentTransparency\<close>.
  \<open>attributeDefines\<close> is the state of the defines at the final test of the function,
  with \<open>uvChanged\<close>.
\<close>

definition attributeDefines ::
  "(bool \<Rightarrow> materialDefines \<Rightarrow> materialDefines) \<Rightarrow> bool \<Rightarrow> mesh \<Rightarrow> materialDefines
     \<Rightarrow> materialDefines \<times> bool"
where
  "attributeDefines prePass oit mesh defines =
     (let d1 = assignDefine ''NORMAL'' (isVerticesDataPresent mesh NormalKind) defines;
          d2 = assignDefine ''TANGENT'' (isVerticesDataPresent mesh TangentKind) d1;
          hasVertexColors = (useVertexColors mesh \<and> isVerticesDataPresent mesh ColorKind);
          d3 = assignDefine ''VERTEXCOLOR_NME'' hasVertexColors d2;
          s4 = fold (prepareUV mesh) [1 ..< Suc MAX_SUPPORTED_UV_SETS] (d3, False)
      in (prePass (\<not> oit) (fst s4), snd s4))"

definition prepareDefinesForAttributes ::
  "(bool \<Rightarrow> materialDefines \<Rightarrow> materialDefines) \<Rightarrow> bool \<Rightarrow> mesh \<Rightarrow> materialDefines
     \<Rightarrow> materialDefines"
where
  "prepareDefinesForAttributes prePass oit mesh defines =
     (let oldNormal = defineValues defines ''NORMAL'';
          oldTangent = defineValues defines ''TANGENT'';
          oldColor = defineValues defines ''VERTEXCOLOR_NME'';
          s = attributeDefines prePass oit mesh defines;
          d = fst s;
          uvChanged = snd s
      in if oldNormal \<noteq> defineValues d ''NORMAL'' \<or> oldTangent \<noteq> defineValues d ''TANGENT''
            \<or> oldColor \<noteq> defineValues d ''VERTEXCOLOR_NME'' \<or> uvChanged
         then markAsAttributesDirty d else d)"

text \<open>
  The attribute defines with the mesh capability each of them records, and what is asked
  of the pre-pass helper in the theorem on \<open>_prepareDefinesForAttributes\<close>: it leaves the
  dirty categories and the three attribute defines read after it as they are.
\<close>

definition attributeCapabilities :: "mesh \<Rightarrow> (string \<times> bool) list" where
  "attributeCapabilities mesh =
     [(''NORMAL'', isVerticesDataPresent mesh NormalKind),
      (''TANGENT'', isVerticesDataPresent mesh TangentKind),
      (''VERTEXCOLOR_NME'', useVertexColors mesh \<and> isVerticesDataPresent mesh ColorKind)]
     @ map (\<lambda>i. (uvDefine i, isVerticesDataPresent mesh (uvKind i)))
         [1 ..< Suc MAX_SUPPORTED_UV_SETS]"

definition keepsAttributes :: "(bool \<Rightarrow> materialDefines \<Rightarrow> materialDefines) \<Rightarrow> bool" where
  "keepsAttributes prePass =
     (\<forall>flag d. otherCategories (prePass flag d) = otherCategories d
        \<and> defineValues (prePass flag d) ''NORMAL'' = defineValues d ''NORMAL''
        \<and> defineValues (prePass flag d) ''TANGENT'' = defineValues d ''TANGENT''
        \<and> defineValues (prePass flag d) ''VERTEXCOLOR_NME'' = defineValues d ''VERTEXCOLOR_NME'')"

subsection \<open>\<open>_processDefines\<close>\<close>

text \<open>
  The part of \<open>CoreNodeMaterial\<close> that \<open>_processDefines\<close> and \<open>bindForSubMesh\<close> use: the
  two compilation states, the block lists and the hints of the shared data, the frozen
  flag and the active effect.
\<close>

type_synonym effect = nat

record coreMaterial =
  coreVertexState :: buildState
  coreFragmentState :: buildState
  blocksWithDefines :: "block_id list"
  repeatableContentBlocks :: "block_id list"
  dynamicUniformBlocks :: "block_id list"
  blocksWithFallbacks :: "block_id list"
  bindableBlocks :: "block_id list"
  forcedBindableBlocks :: "block_id list"
  inputBlocks :: "block_id list"
  needWorldViewMatrix :: bool
  needWorldViewProjectionMatrix :: bool
  isFrozen :: bool
  activeEffect :: "effect option"

text \<open>
  The helper \<open>PrepareDefinesForCamera\<close> and the methods of the blocks are outside the given
  sources and are parameters; they stand for the calls with the mesh, the instance flag
  and the sub-mesh of the current check.  A fallback is recorded as the pair that
  \<open>provideFallbacks\<close> adds.
\<close>

type_synonym fallback = "nat \<times> string"

record coreHooks =
  prepareDefinesForCamera :: "materialDefines \<Rightarrow> bool \<times> materialDefines"
  initializeDefines :: "block_id \<Rightarrow> materialDefines \<Rightarrow> materialDefines"
  prepareDefines :: "block_id \<Rightarrow> materialDefines \<Rightarrow> materialDefines"
  replaceRepeatableContent ::
    "block_id \<Rightarrow> materialDefines \<Rightarrow> buildState \<times> buildState \<Rightarrow> buildState \<times> buildState"
  updateUniformsAndSamples ::
    "block_id \<Rightarrow> materialDefines \<Rightarrow> buildState \<times> string list \<Rightarrow> buildState \<times> string list"
  provideFallbacks :: "block_id \<Rightarrow> fallback list \<Rightarrow> fallback list"

record processResult =
  lightDisposed :: bool
  uniformBuffers :: "string list"
  mergedUniforms :: "string list"
  mergedSamplers :: "string list"
  fallbacks :: "fallback list"

text \<open>
  The merge loop: \<open>merged\<close> is the list of the vertex state itself, and each name of the
  fragment list is pushed on it when \<open>indexOf\<close> does not find it.
\<close>

definition mergeInto :: "string list \<Rightarrow> string list \<Rightarrow> string list" where
  "mergeInto merged names =
     fold (\<lambda>u acc. if u \<in> set acc then acc else acc @ [u]) names merged"

text \<open>The defines after the camera helper and the two rounds over the blocks with defines.\<close>

definition preparedDefines :: "coreHooks \<Rightarrow> coreMaterial \<Rightarrow> materialDefines \<Rightarrow> materialDefines" where
  "preparedDefines H m defines =
     (let r = prepareDefinesForCamera H defines;
          d1 = (if fst r then markAsMiscDirty (snd r) else snd r);
          d2 = fold (initializeDefines H) (blocksWithDefines m) d1
      in fold (prepareDefines H) (blocksWithDefines m) d2)"

text \<open>
  The states after the repeatable content generators and the dynamic uniform blocks, with
  the uniform buffers the latter have collected.
\<close>

definition resplicedStates ::
  "coreHooks \<Rightarrow> coreMaterial \<Rightarrow> materialDefines \<Rightarrow> buildState \<times> buildState \<times> string list"
where
  "resplicedStates H m defines =
     (let vs1 = (coreVertexState m)\<lparr>compilationString := builtCompilationString (coreVertexState m)\<rparr>;
          fs1 = (coreFragmentState m)\<lparr>compilationString :=
                  builtCompilationString (coreFragmentState m)\<rparr>;
          s2 = fold (\<lambda>b. replaceRepeatableContent H b defines) (repeatableContentBlocks m) (vs1, fs1);
          s3 = fold (\<lambda>b. updateUniformsAndSamples H b defines) (dynamicUniformBlocks m) (fst s2, [])
      in (fst s3, snd s2, snd s3))"

definition processDefines ::
  "coreHooks \<Rightarrow> coreMaterial \<Rightarrow> materialDefines
     \<Rightarrow> processResult option \<times> materialDefines \<times> coreMaterial"
where
  "processDefines H m defines =
     (let d = preparedDefines H m defines in
      if isDirty d then
        (let wasLightDisposed = areLightsDisposed d;
             d1 = markAsProcessed d;
             s = resplicedStates H m d1;
             vs = fst s;
             fs = fst (snd s);
             uniformBufferNames = snd (snd s);
             uniformNames = mergeInto (uniforms vs) (uniforms fs);
             samplerNames = mergeInto (samplers vs) (samplers fs);
             fallbackList = fold (provideFallbacks H) (blocksWithFallbacks m) []
         in (Some \<lparr>lightDisposed = wasLightDisposed, uniformBuffers = uniformBufferNames,
                   mergedUniforms = uniformNames, mergedSamplers = samplerNames,
                   fallbacks = fallbackList\<rparr>,
             d1,
             m\<lparr>coreVertexState := vs\<lparr>uniforms := uniformNames, samplers := samplerNames\<rparr>,
               coreFragmentState := fs\<rparr>))
      else (None, d, m))"

subsection \<open>\<open>bindForSubMesh\<close>\<close>

text \<open>
  What a bind does is the sequence of the calls it makes: the two cached matrices, the
  world transmission, \<open>bind\<close> and \<open>_transmit\<close> of the blocks, and \<open>_afterBind\<close>.
  \<open>_mustRebind\<close> belongs to \<open>PushMaterial\<close>, outside the given sources; its result is the
  parameter \<open>mustRebind\<close>.
\<close>

datatype bindEvent =
    WorldViewMatrix
  | WorldViewProjectionMatrix
  | TransmitWorld block_id
  | Bind block_id
  | Transmit block_id
  | AfterBind

definition bindOnlyWorldMatrix :: "coreMaterial \<Rightarrow> bindEvent list" where
  "bindOnlyWorldMatrix m =
     (case activeEffect m of
        None \<Rightarrow> []
      | Some _ \<Rightarrow>
          (if needWorldViewMatrix m then [WorldViewMatrix] else [])
          @ (if needWorldViewProjectionMatrix m then [WorldViewProjectionMatrix] else [])
          @ map TransmitWorld (inputBlocks m))"

definition bindForSubMesh ::
  "bool \<Rightarrow> effect option \<Rightarrow> coreMaterial \<Rightarrow> coreMaterial \<times> bindEvent list"
where
  "bindForSubMesh mustRebind subMeshEffect m =
     (case subMeshEffect of
        None \<Rightarrow> (m, [])
      | Some effect \<Rightarrow>
          (let m1 = m\<lparr>activeEffect := Some effect\<rparr> in
           (m1,
            bindOnlyWorldMatrix m1
            @ (if mustRebind then
                 map Bind (bindableBlocks m1) @ map Bind (forcedBindableBlocks m1)
                 @ map Transmit (inputBlocks m1)
               else if \<not> isFrozen m1 then map Bind (forcedBindableBlocks m1)
               else [])
            @ [AfterBind])))"

text \<open>The calls that push the value of a block: \<open>bind\<close> and \<open>_transmit\<close>.\<close>

fun isValuePush :: "bindEvent \<Rightarrow> bool" where
  "isValuePush (Bind _) = True"
| "isValuePush (Transmit _) = True"
| "isValuePush _ = False"

subsection \<open>Example states of the core material\<close>

definition emptyBuildState :: buildState where
  "emptyBuildState = newBuildState True Vertex"

definition cleanDefines :: materialDefines where
  "cleanDefines = \<lparr>defineValues = (\<lambda>_. None), defineKeys = [], isDirty = False,
     areAttributesDirty = False, areTexturesDirty = False, areFresnelDirty = False,
     areLightsDirty = False, areLightsDisposed = False, areMiscDirty = False,
     arePrePassDirty = False, areImageProcessingDirty = False\<rparr>"

text \<open>
  A core material with one input block (1), one bindable block (2) and one forced
  bindable block (3); the vertex stage declares the uniforms \<open>world\<close> and \<open>u_color\<close>, the
  fragment stage \<open>u_color\<close>, \<open>u_time\<close> and \<open>u_time\<close> again.
\<close>

definition exampleCore :: coreMaterial where
  "exampleCore =
     \<lparr>coreVertexState = emptyBuildState\<lparr>uniforms := [''world'', ''u_color''],
                           samplers := [''diffuse'']\<rparr>,
      coreFragmentState = emptyBuildState\<lparr>uniforms := [''u_color'', ''u_time'', ''u_time''],
                             samplers := [''diffuse'', ''bump'']\<rparr>,
      blocksWithDefines = [], repeatableContentBlocks = [], dynamicUniformBlocks = [],
      blocksWithFallbacks = [], bindableBlocks = [2], forcedBindableBlocks = [3],
      inputBlocks = [1], needWorldViewMatrix = False, needWorldViewProjectionMatrix = False,
      isFrozen = False, activeEffect = None\<rparr>"

definition idleCoreHooks :: coreHooks where
  "idleCoreHooks =
     \<lparr>prepareDefinesForCamera = (\<lambda>d. (False, d)), initializeDefines = (\<lambda>b d. d),
      prepareDefines = (\<lambda>b d. d), replaceRepeatableContent = (\<lambda>b d s. s),
      updateUniformsAndSamples = (\<lambda>b d s. s), provideFallbacks = (\<lambda>b f. f)\<rparr>"

text \<open>A mesh with normals and vertex colours, and a pre-pass helper that changes nothing.\<close>

definition colouredMesh :: mesh where
  "colouredMesh =
     \<lparr>isVerticesDataPresent = (\<lambda>kind. kind = ''normal'' \<or> kind = ''color''),
      useVertexColors = True\<rparr>"

definition idlePrePass :: "bool \<Rightarrow> materialDefines \<Rightarrow> materialDefines" where
  "idlePrePass flag d = d"

text \<open>The defines of a mesh with normals only, as a previous check has left them.\<close>

definition normalOnlyDefines :: materialDefines where
  "normalOnlyDefines =
     cleanDefines\<lparr>defineValues :=
       (\<lambda>key. if key = ''NORMAL'' then Some (DefBool True)
              else if key \<in> {''TANGENT'', ''VERTEXCOLOR_NME'', ''UV1'', ''UV2'', ''UV3'', ''UV4'',
                             ''UV5'', ''UV6''} then Some (DefBool False)
              else None)\<rparr>"

text \<open>
  For the statement on the merged lists: the names a stage has declared when the merge
  starts, and \<open>newNames V F\<close>, the names of \<open>F\<close> that are not in \<open>V\<close>, each taken once, in
  the order of their first occurrence in \<open>F\<close>.
\<close>

definition namesAtMerge ::
  "coreHooks \<Rightarrow> coreMaterial \<Rightarrow> materialDefines \<Rightarrow> buildState \<times> buildState"
where
  "namesAtMerge H m defines =
     (let s = resplicedStates H m (markAsProcessed (preparedDefines H m defines))
      in (fst s, fst (snd s)))"

definition newNames :: "string list \<Rightarrow> string list \<Rightarrow> string list" where
  "newNames V F = rev (remdups (rev (filter (\<lambda>u. u \<notin> set V) F)))"

definition dirtyDefines :: materialDefines where
  "dirtyDefines = markAsAttributesDirty cleanDefines"

section \<open>Serialization\<close>









section \<open>Deserialization\<close>






subsection \<open>\<open>_restoreConnections\<close>\<close>






subsection \<open>\<open>parseSerializedObject\<close>\<close>






subsection \<open>The round trip\<close>


text \<open>
  The block that stands for \<open>b\<close> after the round trip: the blocks are created in the order
  of the serialized list, from the reference \<open>ref\<close> on.
\<close>

fun newRef :: "block_id list \<Rightarrow> block_id \<Rightarrow> block_id \<Rightarrow> block_id" where
  "newRef [] ref b = ref"
| "newRef (x # xs) ref b = (if x = b then ref else newRef xs (Suc ref) b)"










subsection \<open>The state of the loop "Connections"\<close>





definition evolves :: "store \<Rightarrow> store \<Rightarrow> bool" where
  "evolves st st' =
     (\<forall>ref. (st' ref)\<lparr>inputs := []\<rparr> = (st ref)\<lparr>inputs := []\<rparr>
        \<and> map inputName (inputs (st' ref)) = map inputName (inputs (st ref))
        \<and> (\<forall>j<length (inputs (st ref)).
              connectedPoint (inputs (st ref) ! j) \<noteq> None
                \<longrightarrow> connectedPoint (inputs (st' ref) ! j) = connectedPoint (inputs (st ref) ! j)))"

definition unconnected :: "block_id list \<Rightarrow> (block_id \<Rightarrow> block_id) \<Rightarrow> store \<Rightarrow> (block_id \<times> nat) set" where
  "unconnected list f st =
     {(b, j). b \<in> set list \<and> j < length (inputs (st (f b)))
                \<and> connectedPoint (inputs (st (f b)) ! j) = None}"




subsection \<open>Example graphs for the round trip\<close>


definition out :: "string \<Rightarrow> connection_output" where
  "out nm = \<lparr>outputName = nm, outputVariableName = ''''\<rparr>"






section \<open>Theorems\<close>

lemma target_flags [simp]:
  "VertexAndFragment AND Vertex \<noteq> 0" "VertexAndFragment AND Fragment \<noteq> 0"
  "Vertex AND Fragment = 0" "Fragment AND Vertex = 0"
  "Vertex AND Vertex \<noteq> 0" "Fragment AND Fragment \<noteq> 0"
  by (simp_all add: Vertex_def Fragment_def VertexAndFragment_def)




text \<open>
  The state of the counterexample is reached by adding the block once and writing
  \<open>VertexAndFragment\<close> to its target again.
\<close>

lemma listedDualMaterial_reached:
  "map_outcome (setTarget 0 VertexAndFragment)
     (addOutputNode 0 (setTarget 0 VertexAndFragment emptyMaterial)) = Return listedDualMaterial"
  by (simp add: addOutputNode_def addVertexOutputNode_def addFragmentOutputNode_def
        setTarget_def emptyMaterial_def listedDualMaterial_def Let_def)

subsection \<open>Resetting the dual blocks\<close>


lemma foldM_append: "foldM g (xs @ ys) s = (case foldM g xs s of None \<Rightarrow> None | Some s' \<Rightarrow> foldM g ys s')"
  by (induction xs arbitrary: s) (auto split: option.splits)

lemma stamped_refl: "stamped ident hp hp"
  by (simp add: stamped_def)

lemma stamped_trans: "stamped ident hp hp1 \<Longrightarrow> stamped ident hp1 hp2 \<Longrightarrow> stamped ident hp hp2"
  unfolding stamped_def
proof (intro allI)
  fix b
  assume a: "\<forall>b. hp1 b = hp b \<or> target (hp b) = Some VertexAndFragment \<and> hp1 b = (hp b)\<lparr>buildId := ident\<rparr>"
    and b: "\<forall>b. hp2 b = hp1 b \<or> target (hp1 b) = Some VertexAndFragment \<and> hp2 b = (hp1 b)\<lparr>buildId := ident\<rparr>"
  from a[rule_format, of b] b[rule_format, of b]
  show "hp2 b = hp b \<or> target (hp b) = Some VertexAndFragment \<and> hp2 b = (hp b)\<lparr>buildId := ident\<rparr>"
    by auto
qed

lemma stamped_links: "stamped ident hp hp' \<Longrightarrow> links hp' n = links hp n"
  unfolding stamped_def links_def teleportLink_def
  by (drule spec[of _ n]) auto

lemma stamped_target: "stamped ident hp hp' \<Longrightarrow> target (hp' n) = target (hp n)"
  unfolding stamped_def by (drule spec[of _ n]) auto

lemma stamped_reachable: "stamped ident hp hp' \<Longrightarrow> reachable hp' = reachable hp"
  by (simp add: reachable_def stamped_links fun_eq_iff)

lemma stamped_keeps: "stamped ident hp hp' \<Longrightarrow> target (hp b) = Some VertexAndFragment \<Longrightarrow> buildId (hp b) = ident \<Longrightarrow> buildId (hp' b) = ident"
  unfolding stamped_def by (drule spec[of _ b]) auto

lemma stamped_stamp: "stamped ident hp (if target (hp node) = Some VertexAndFragment
                 then hp(node := (hp node)\<lparr>buildId := ident\<rparr>) else hp)"
  by (simp add: stamped_def)

lemma resetInputs_links:
  "foldM (resetDualInput reset node) ins hp = foldM reset (linkedBlocks node ins) hp"
  by (induction ins arbitrary: hp) (auto simp: resetDualInput_def split: option.splits)

lemma foldM_stamped:
  assumes "\<And>x h h'. g x h = Some h' \<Longrightarrow> stamped ident h h'"
  shows "foldM g xs h = Some h' \<Longrightarrow> stamped ident h h'"
proof (induction xs arbitrary: h)
  case Nil then show ?case by (simp add: stamped_refl)
next
  case (Cons x xs)
  then obtain h1 where h1: "g x h = Some h1" "foldM g xs h1 = Some h'"
    by (auto split: option.splits)
  have "stamped ident h h1" using h1(1) by (rule assms)
  moreover have "stamped ident h1 h'" using h1(2) by (rule Cons.IH)
  ultimately show ?case by (rule stamped_trans)
qed

lemma resetDualBlocks_stamped:
  "resetDualBlocks fuel node ident hp = Some hp' \<Longrightarrow> stamped ident hp hp'"
proof (induction fuel arbitrary: node hp hp')
  case 0 then show ?case by simp
next
  case (Suc fuel)
  let ?hp1 = "if target (hp node) = Some VertexAndFragment
                 then hp(node := (hp node)\<lparr>buildId := ident\<rparr>) else hp"
  from Suc.prems obtain hp2 where
    f: "foldM (\<lambda>block. resetDualBlocks fuel block ident) (linkedBlocks node (inputs (?hp1 node))) ?hp1 = Some hp2"
    and t: "(if isTeleportOut (hp2 node) then
             (case entryPoint (hp2 node) of
                Some entry \<Rightarrow> resetDualBlocks fuel entry ident hp2
              | None \<Rightarrow> Some hp2)
           else Some hp2) = Some hp'"
    by (auto simp: Let_def resetInputs_links split: option.splits if_splits)
  have s1: "stamped ident hp ?hp1" by (rule stamped_stamp)
  have s2: "stamped ident ?hp1 hp2" using f Suc.IH by (rule foldM_stamped[rotated])
  have s3: "stamped ident hp2 hp'" using t Suc.IH by (auto split: if_splits option.splits simp: stamped_refl)
  show ?case using s1 s2 s3 by (blast intro: stamped_trans)
qed

lemma resetDualBlocks_unfold:
  "resetDualBlocks (Suc fuel) node ident hp =
     foldM (\<lambda>block. resetDualBlocks fuel block ident) (links hp node)
       (if target (hp node) = Some VertexAndFragment
                 then hp(node := (hp node)\<lparr>buildId := ident\<rparr>) else hp)"
proof -
  let ?hp1 = "if target (hp node) = Some VertexAndFragment
                 then hp(node := (hp node)\<lparr>buildId := ident\<rparr>) else hp"
  let ?g = "\<lambda>block. resetDualBlocks fuel block ident"
  have i: "inputs (?hp1 node) = inputs (hp node)" by simp
  show ?thesis
  proof (cases "foldM ?g (linkedBlocks node (inputs (hp node))) ?hp1")
    case None
    then show ?thesis by (simp add: Let_def resetInputs_links links_def foldM_append i del: fun_upd_apply)
  next
    case (Some hp2)
    have "stamped ident ?hp1 hp2" using Some resetDualBlocks_stamped by (rule foldM_stamped[rotated])
    with stamped_stamp[of ident hp node] have "stamped ident hp hp2" by (blast intro: stamped_trans)
    then have "hp2 node = hp node \<or> hp2 node = (hp node)\<lparr>buildId := ident\<rparr>"
      unfolding stamped_def by blast
    then have tl: "isTeleportOut (hp2 node) = isTeleportOut (hp node)" "entryPoint (hp2 node) = entryPoint (hp node)"
      by auto
    show ?thesis using Some tl
      by (simp add: Let_def resetInputs_links links_def foldM_append i teleportLink_def del: fun_upd_apply split: option.splits)
  qed
qed

lemma reachable_refl: "reachable hp a a" by (simp add: reachable_def)

lemma reachable_step: "c \<in> set (links hp a) \<Longrightarrow> reachable hp c b \<Longrightarrow> reachable hp a b"
  unfolding reachable_def by (rule converse_rtrancl_into_rtrancl) auto

lemma reachable_cases: "reachable hp a b \<Longrightarrow> b = a \<or> (\<exists>c \<in> set (links hp a). reachable hp c b)"
  unfolding reachable_def by (erule converse_rtranclE) auto

lemma reachable_trans: "reachable hp a b \<Longrightarrow> reachable hp b c \<Longrightarrow> reachable hp a c"
  unfolding reachable_def by (rule rtrancl_trans)


lemma foldM_marks:
  assumes step: "\<And>x h h' b. g x h = Some h' \<Longrightarrow> reachable h x b
                   \<Longrightarrow> target (h b) = Some VertexAndFragment \<Longrightarrow> buildId (h' b) = ident"
    and st: "\<And>x h h'. g x h = Some h' \<Longrightarrow> stamped ident h h'"
  shows "foldM g xs h = Some h' \<Longrightarrow> x \<in> set xs \<Longrightarrow> reachable h x b
           \<Longrightarrow> target (h b) = Some VertexAndFragment \<Longrightarrow> buildId (h' b) = ident"
proof (induction xs arbitrary: h)
  case Nil then show ?case by simp
next
  case (Cons y ys)
  from Cons.prems(1) obtain h1 where h1: "g y h = Some h1" "foldM g ys h1 = Some h'"
    by (auto split: option.splits)
  have s1: "stamped ident h h1" using h1(1) by (rule st)
  have s2: "stamped ident h1 h'" using st h1(2) by (rule foldM_stamped)
  have t1: "target (h1 b) = Some VertexAndFragment"
    using s1 Cons.prems(4) by (simp add: stamped_target)
  show ?case
  proof (cases "x = y")
    case True
    have "buildId (h1 b) = ident" using h1(1) Cons.prems(3,4) True by (auto intro: step)
    with s2 t1 show ?thesis by (rule stamped_keeps)
  next
    case False
    then have "x \<in> set ys" using Cons.prems(2) by simp
    moreover have "reachable h1 x b" using s1 Cons.prems(3) by (simp add: stamped_reachable)
    ultimately show ?thesis using h1(2) t1 by (intro Cons.IH)
  qed
qed

lemma resetDualBlocks_marks:
  "resetDualBlocks fuel node ident hp = Some hp' \<Longrightarrow> reachable hp node b
     \<Longrightarrow> target (hp b) = Some VertexAndFragment \<Longrightarrow> buildId (hp' b) = ident"
proof (induction fuel arbitrary: node hp hp' b)
  case 0 then show ?case by simp
next
  case (Suc fuel)
  let ?hp1 = "if target (hp node) = Some VertexAndFragment
                 then hp(node := (hp node)\<lparr>buildId := ident\<rparr>) else hp"
  let ?g = "\<lambda>block. resetDualBlocks fuel block ident"
  have run: "foldM ?g (links hp node) ?hp1 = Some hp'"
    using Suc.prems(1) by (simp only: resetDualBlocks_unfold)
  have s1: "stamped ident hp ?hp1" by (rule stamped_stamp)
  have s2: "stamped ident ?hp1 hp'" using resetDualBlocks_stamped run by (rule foldM_stamped)
  have t1: "target (?hp1 b) = Some VertexAndFragment"
    using s1 Suc.prems(3) by (simp only: stamped_target)
  from reachable_cases[OF Suc.prems(2)] show ?case
  proof
    assume "b = node"
    then have "buildId (?hp1 b) = ident" using Suc.prems(3) by simp
    with s2 t1 show ?thesis by (rule stamped_keeps)
  next
    assume "\<exists>c\<in>set (links hp node). reachable hp c b"
    then obtain c where c: "c \<in> set (links hp node)" "reachable hp c b" by blast
    have "reachable ?hp1 c b" using s1 c(2) by (simp only: stamped_reachable)
    show ?thesis
    proof (rule foldM_marks[where g = ?g and ident = ident])
      show "foldM ?g (links hp node) ?hp1 = Some hp'" by (rule run)
      show "c \<in> set (links hp node)" by (rule c(1))
      show "reachable ?hp1 c b" by fact
      show "target (?hp1 b) = Some VertexAndFragment" by (rule t1)
    qed (erule Suc.IH, assumption+, erule resetDualBlocks_stamped)
  qed
qed

lemma foldM_total:
  assumes step: "\<And>x h. x \<in> set xs \<Longrightarrow> stamped ident base h \<Longrightarrow> \<exists>h'. g x h = Some h'"
    and st: "\<And>x h h'. g x h = Some h' \<Longrightarrow> stamped ident h h'"
  shows "stamped ident base h \<Longrightarrow> \<exists>h'. foldM g xs h = Some h'"
  using step
proof (induction xs arbitrary: h)
  case Nil then show ?case by simp
next
  case (Cons y ys)
  from Cons.prems obtain h1 where h1: "g y h = Some h1" by fastforce
  have "stamped ident h h1" using h1 by (rule st)
  with Cons.prems(1) have "stamped ident base h1" by (rule stamped_trans)
  then have "\<exists>h'. foldM g ys h1 = Some h'" using Cons.prems(2) by (intro Cons.IH) auto
  with h1 show ?case by simp
qed

lemma resetDualBlocks_total:
  "(\<And>a c. reachable hp node a \<Longrightarrow> c \<in> set (links hp a) \<Longrightarrow> rk c < (rk a :: nat))
     \<Longrightarrow> rk node < fuel \<Longrightarrow> \<exists>hp'. resetDualBlocks fuel node ident hp = Some hp'"
proof (induction fuel arbitrary: node hp)
  case 0 then show ?case by simp
next
  case (Suc fuel)
  let ?hp1 = "if target (hp node) = Some VertexAndFragment
                 then hp(node := (hp node)\<lparr>buildId := ident\<rparr>) else hp"
  let ?g = "\<lambda>block. resetDualBlocks fuel block ident"
  have "\<exists>h'. foldM ?g (links hp node) ?hp1 = Some h'"
  proof (rule foldM_total[where base = hp and ident = ident])
    fix x h assume x: "x \<in> set (links hp node)" and h: "stamped ident hp h"
    have rx: "rk x < rk node" using Suc.prems(1)[OF reachable_refl x] .
    show "\<exists>h'. resetDualBlocks fuel x ident h = Some h'"
    proof (rule Suc.IH)
      show "rk x < fuel" using rx Suc.prems(2) by simp
    next
      fix a c assume "reachable h x a" "c \<in> set (links h a)"
      then have "reachable hp x a" "c \<in> set (links hp a)"
        using h by (simp_all add: stamped_reachable stamped_links)
      then show "rk c < rk a" using x by (blast intro: Suc.prems(1) reachable_step)
    qed
  next
    show "\<And>x h h'. resetDualBlocks fuel x ident h = Some h' \<Longrightarrow> stamped ident h h'"
      by (rule resetDualBlocks_stamped)
  next
    show "stamped ident hp ?hp1" by (rule stamped_stamp)
  qed
  then show ?case by (simp only: resetDualBlocks_unfold)
qed


subsection \<open>Initializing the blocks\<close>


lemma linkedBlocks_cong:
  "map connectedPoint ins = map connectedPoint ins' \<Longrightarrow> linkedBlocks n ins = linkedBlocks n ins'"
proof (induction ins arbitrary: ins')
  case Nil then show ?case by simp
next
  case (Cons x xs)
  then obtain y ys where "ins' = y # ys" by (cases ins') auto
  with Cons show ?case by (auto split: option.splits)
qed

lemma links_wiring: "wiring (hp n) = wiring (G n) \<Longrightarrow> links hp n = links G n"
  by (auto simp: wiring_def links_def teleportLink_def dest: linkedBlocks_cong[of _ _ n])

lemma initInv_keep:
  assumes "initInv G A0 m" "attachedBlocks m' = attachedBlocks m"
    "\<And>n. wiring (blocks m' n) = wiring (blocks m n)"
  shows "initInv G A0 m'"
  using assms by (simp add: initInv_def)

lemma initInv_hook: "keepsGraph g \<Longrightarrow> initInv G A0 m \<Longrightarrow> initInv G A0 (g m)"
  by (rule initInv_keep) (auto simp: keepsGraph_def)

lemma wiring_preparationId [simp]: "wiring (b\<lparr>preparationId := x\<rparr>) = wiring b"
  by (simp add: wiring_def)

lemma wiring_clearInput [simp]:
  "wiring (b\<lparr>inputs := (inputs b)[i := (inputs b ! i)\<lparr>inputVariableName := v\<rparr>]\<rparr>) = wiring b"
  by (cases "i < length (inputs b)") (simp_all add: wiring_def map_update list_update_same_conv list_update_beyond)

lemma wiring_outputs [simp]: "wiring (b\<lparr>outputs := x\<rparr>) = wiring b"
  by (simp add: wiring_def)

lemma initInv_preparationId:
  "initInv G A0 m \<Longrightarrow> initInv G A0 (updateBlock node (\<lambda>b. b\<lparr>preparationId := x\<rparr>) m)"
  by (rule initInv_keep) (auto simp: updateBlock_def)

lemma initInv_clearInput: "initInv G A0 m \<Longrightarrow> initInv G A0 (clearInputVariableName node i m)"
  by (rule initInv_keep) (auto simp: updateBlock_def clearInputVariableName_def)

lemma initInv_clearOutputs: "initInv G A0 m \<Longrightarrow> initInv G A0 (clearOutputVariableNames node m)"
  by (rule initInv_keep) (auto simp: updateBlock_def clearOutputVariableNames_def)

lemma attached_simps [simp]:
  "attachedBlocks (updateBlock node g m) = attachedBlocks m"
  "attachedBlocks (clearInputVariableName node i m) = attachedBlocks m"
  "attachedBlocks (clearOutputVariableNames node m) = attachedBlocks m"
  by (simp_all add: updateBlock_def clearInputVariableName_def clearOutputVariableNames_def)

lemma initInv_wiring: "initInv G A0 m \<Longrightarrow> wiring (blocks m n) = wiring (G n)"
  by (simp add: initInv_def)

lemma attachBlock_Return:
  assumes inv: "initInv G A0 m" and ret: "attachBlock node m = Return m4"
  shows "initInv G A0 m4 \<and> node \<in> set (attachedBlocks m4)
         \<and> set (attachedBlocks m) \<subseteq> set (attachedBlocks m4)"
proof (cases "node \<in> set (attachedBlocks m)")
  case True
  with ret have "m4 = m" by (simp add: attachBlock_def)
  with inv True show ?thesis by simp
next
  case False
  with ret have ok: "\<not> (isUnique (blocks m node)
              \<and> list_ex (\<lambda>other. className (blocks m other) = className (blocks m node))
                   (attachedBlocks m))"
    and m4: "m4 = m\<lparr>attachedBlocks := attachedBlocks m @ [node]\<rparr>"
    by (auto simp: attachBlock_def split: if_splits)
  have w: "\<And>n. isUnique (blocks m n) = isUnique (G n)" "\<And>n. className (blocks m n) = className (G n)"
    using initInv_wiring[OF inv] by (auto simp: wiring_def)
  from ok have ok': "\<not> isUnique (G node) \<or> (\<forall>y\<in>set (attachedBlocks m). className (G y) \<noteq> className (G node))"
    by (auto simp: w list_ex_iff)
  have u: "uniqueOk G A0 (attachedBlocks m)" using inv by (simp add: initInv_def)
  have "uniqueOk G A0 (attachedBlocks m @ [node])"
    unfolding uniqueOk_def
  proof (intro allI impI)
    fix x y
    assume h: "x \<in> set (attachedBlocks m @ [node]) \<and> y \<in> set (attachedBlocks m @ [node]) \<and> x \<noteq> y
       \<and> isUnique (G x) \<and> isUnique (G y) \<and> className (G x) = className (G y)"
    show "x \<in> A0 \<and> y \<in> A0"
    proof (cases "x = node \<or> y = node")
      case True
      with h ok' show ?thesis by auto
    next
      case False
      with h u show ?thesis unfolding uniqueOk_def by auto
    qed
  qed
  with inv show ?thesis by (auto simp: m4 initInv_def)
qed

lemma processInitializeOnLink_visits:
  "visits G A0 init \<Longrightarrow> visits G A0 (\<lambda>block. processInitializeOnLink init block stage)"
  unfolding visits_def processInitializeOnLink_def
  by (auto split: prod.splits)

lemma initializeInputs_visits:
  assumes v: "visits G A0 init"
  shows "initInv G A0 (fst s)
     \<Longrightarrow> foldO (initializeInput init node stage) (enumerate k ins) s = Return r
     \<Longrightarrow> initInv G A0 (fst r) \<and> set (attachedBlocks (fst s)) \<subseteq> set (attachedBlocks (fst r))
         \<and> (\<forall>c\<in>set (linkedBlocks node ins). \<forall>b. reachable G c b \<longrightarrow> b \<in> set (attachedBlocks (fst r)))"
proof (induction ins arbitrary: k s)
  case Nil then show ?case by simp
next
  case (Cons x xs)
  obtain m others where s: "s = (m, others)" by (cases s)
  from Cons.prems(2) obtain s1 where
    s1: "initializeInput init node stage (k, x) s = Return s1"
    and rest: "foldO (initializeInput init node stage) (enumerate (Suc k) xs) s1 = Return r"
    by (cases "initializeInput init node stage (k, x) s") auto
  have inv1: "initInv G A0 (clearInputVariableName node k m)"
    using Cons.prems(1) s by (simp add: initInv_clearInput)
  let ?P = "\<lambda>s1. initInv G A0 (fst s1) \<and> set (attachedBlocks m) \<subseteq> set (attachedBlocks (fst s1))
      \<and> (\<forall>c\<in>set (linkedBlocks node [x]). \<forall>b. reachable G c b \<longrightarrow> b \<in> set (attachedBlocks (fst s1)))"
  have step: "?P s1"
  proof (cases "connectedPoint x")
    case None
    with s1 s inv1 show ?thesis by (auto simp: initializeInput_def Let_def)
  next
    case (Some p)
    obtain block nm where p: "p = (block, nm)" by (cases p)
    show ?thesis
    proof (cases "block = node")
      case True
      with s1 s inv1 Some p show ?thesis by (auto simp: initializeInput_def Let_def)
    next
      case False
      with s1 s Some p have
        "processInitializeOnLink init block stage (clearInputVariableName node k m, others) = Return s1"
        by (simp add: initializeInput_def Let_def)
      with processInitializeOnLink_visits[OF v, of stage] inv1
      have "initInv G A0 (fst s1) \<and> set (attachedBlocks (clearInputVariableName node k m)) \<subseteq> set (attachedBlocks (fst s1))
        \<and> (\<forall>b. reachable G block b \<longrightarrow> b \<in> set (attachedBlocks (fst s1)))"
        unfolding visits_def by (metis fst_conv)
      with Some p False show ?thesis by simp
    qed
  qed
  from Cons.IH[OF _ rest] step
  have r: "initInv G A0 (fst r)" "set (attachedBlocks (fst s1)) \<subseteq> set (attachedBlocks (fst r))"
    "\<forall>c\<in>set (linkedBlocks node xs). \<forall>b. reachable G c b \<longrightarrow> b \<in> set (attachedBlocks (fst r))"
    by auto
  have split: "set (linkedBlocks node (x # xs)) = set (linkedBlocks node [x]) \<union> set (linkedBlocks node xs)"
    by (auto split: option.splits)
  show ?case unfolding split using step r s by auto
qed


lemma bindO_Return: "bindO x g = Return r \<longleftrightarrow> (\<exists>a. x = Return a \<and> g a = Return r)"
  by (cases x) auto

lemma bindO_Throw: "bindO x g = Throw e m \<longleftrightarrow> x = Throw e m \<or> (\<exists>a. x = Return a \<and> g a = Throw e m)"
  by (cases x) auto


lemma teleportLink_wiring: "wiring b = wiring b' \<Longrightarrow> teleportLink b = teleportLink b'"
  by (simp add: wiring_def teleportLink_def)

lemma linkedBlocks_wiring: "wiring b = wiring b' \<Longrightarrow> linkedBlocks n (inputs b) = linkedBlocks n (inputs b')"
  by (rule linkedBlocks_cong) (simp add: wiring_def)

lemma initializeBlock_Suc_visits:
  assumes H: "graphPreservingHooks H" and v: "visits G A0 (initializeBlock H fuel stage ac)"
  shows "visits G A0 (initializeBlock H (Suc fuel) stage ac)"
  unfolding visits_def
proof (intro allI impI)
  fix node s r
  assume inv: "initInv G A0 (fst s)"
    and ret: "initializeBlock H (Suc fuel) stage ac node s = Return r"
  obtain m others where s: "s = (m, others)" by (cases s)
  define m1 where "m1 = blockInitialize H stage node m"
  define m2 where "m2 = (if ac then blockAutoConfigure H node m1 else m1)"
  define m3 where "m3 = updateBlock node (\<lambda>b. b\<lparr>preparationId := materialBuildId m2\<rparr>) m2"
  let ?init = "initializeBlock H fuel stage ac"
  from ret obtain m4 s5 s6 where
    att: "attachBlock node m3 = Return m4"
    and loop: "foldO (initializeInput ?init node stage) (enumerate 0 (inputs (blocks m4 node))) (m4, others) = Return s5"
    and tele: "(if isTeleportOut (blocks (fst s5) node) then
                  (case entryPoint (blocks (fst s5) node) of
                     Some entry \<Rightarrow> processInitializeOnLink ?init entry stage s5
                   | None \<Rightarrow> Return s5)
                else Return s5) = Return s6"
    and r: "r = (clearOutputVariableNames node (fst s6), snd s6)"
    unfolding s initializeBlock.simps prod.case Let_def m1_def m2_def m3_def bindO_Return
    by blast
  have k1: "keepsGraph (blockInitialize H stage node)" "keepsGraph (blockAutoConfigure H node)"
    using H by (auto simp: graphPreservingHooks_def)
  have inv1: "initInv G A0 m1" unfolding m1_def using k1(1) inv s by (auto intro: initInv_hook)
  have inv2: "initInv G A0 m2" unfolding m2_def using k1(2) inv1 by (auto intro: initInv_hook)
  have inv3: "initInv G A0 m3" unfolding m3_def using inv2 by (rule initInv_preparationId)
  have a3: "attachedBlocks m3 = attachedBlocks m"
    using k1 by (simp add: m3_def m2_def m1_def keepsGraph_def)
  from attachBlock_Return[OF inv3 att]
  have inv4: "initInv G A0 m4" and n4: "node \<in> set (attachedBlocks m4)"
    and a4: "set (attachedBlocks m) \<subseteq> set (attachedBlocks m4)"
    by (auto simp: a3)
  from initializeInputs_visits[OF v _ loop] inv4
  have inv5: "initInv G A0 (fst s5)" and a5: "set (attachedBlocks m4) \<subseteq> set (attachedBlocks (fst s5))"
    and c5: "\<forall>c\<in>set (linkedBlocks node (inputs (blocks m4 node))). \<forall>b. reachable G c b \<longrightarrow> b \<in> set (attachedBlocks (fst s5))"
    by auto
  have inv6: "initInv G A0 (fst s6) \<and> set (attachedBlocks (fst s5)) \<subseteq> set (attachedBlocks (fst s6))
      \<and> (\<forall>c\<in>set (teleportLink (blocks (fst s5) node)). \<forall>b. reachable G c b \<longrightarrow> b \<in> set (attachedBlocks (fst s6)))"
  proof (cases "isTeleportOut (blocks (fst s5) node)")
    case False
    with tele inv5 show ?thesis by (auto simp: teleportLink_def)
  next
    case True
    show ?thesis
    proof (cases "entryPoint (blocks (fst s5) node)")
      case None
      with True tele inv5 show ?thesis by (auto simp: teleportLink_def)
    next
      case (Some entry)
      with True tele have "processInitializeOnLink ?init entry stage s5 = Return s6" by simp
      with processInitializeOnLink_visits[OF v, of stage] inv5
      have "initInv G A0 (fst s6) \<and> set (attachedBlocks (fst s5)) \<subseteq> set (attachedBlocks (fst s6))
        \<and> (\<forall>b. reachable G entry b \<longrightarrow> b \<in> set (attachedBlocks (fst s6)))"
        unfolding visits_def by blast
      with True Some show ?thesis by (simp add: teleportLink_def)
    qed
  qed
  have l: "links G node = linkedBlocks node (inputs (blocks m4 node)) @ teleportLink (blocks (fst s5) node)"
    unfolding links_def
    using linkedBlocks_wiring[OF initInv_wiring[OF inv4, of node], of node]
      teleportLink_wiring[OF initInv_wiring[OF inv5, of node]] by simp
  have cover: "\<forall>b. reachable G node b \<longrightarrow> b \<in> set (attachedBlocks (fst s6))"
  proof (intro allI impI)
    fix b assume "reachable G node b"
    from reachable_cases[OF this] show "b \<in> set (attachedBlocks (fst s6))"
    proof
      assume "b = node" with n4 a5 inv6 show ?thesis by auto
    next
      assume "\<exists>c\<in>set (links G node). reachable G c b"
      then obtain c where "c \<in> set (links G node)" "reachable G c b" by blast
      with l c5 inv6 show ?thesis by auto
    qed
  qed
  show "initInv G A0 (fst r) \<and> set (attachedBlocks (fst s)) \<subseteq> set (attachedBlocks (fst r))
        \<and> (\<forall>b. reachable G node b \<longrightarrow> b \<in> set (attachedBlocks (fst r)))"
    using inv6 cover a4 a5 by (auto simp: r s intro: initInv_clearOutputs)
qed

lemma initializeBlock_visits:
  "graphPreservingHooks H \<Longrightarrow> visits G A0 (initializeBlock H fuel stage ac)"
proof (induction fuel)
  case 0 then show ?case by (simp add: visits_def)
next
  case (Suc fuel) then show ?case by (intro initializeBlock_Suc_visits) auto
qed




lemma bindO_Return_right [simp]: "bindO x Return = x"
  by (cases x) auto




lemma attachBlock_not_OutOfFuel [simp]: "attachBlock node m \<noteq> OutOfFuel"
  by (simp add: attachBlock_def)



lemma processInitializeOnLink_throws:
  "throwsUnique init \<Longrightarrow> processInitializeOnLink init block stage s = Throw e m'
     \<Longrightarrow> \<exists>c. e = MultipleBlocks c"
  unfolding throwsUnique_def processInitializeOnLink_def
  by (cases s) (simp, blast)

lemma initializeInput_throws:
  "throwsUnique init \<Longrightarrow> initializeInput init node stage x s = Throw e m'
     \<Longrightarrow> \<exists>c. e = MultipleBlocks c"
  unfolding initializeInput_def
  by (cases x; cases s)
     (auto simp: Let_def split: option.splits if_splits dest: processInitializeOnLink_throws)

lemma initializeInputs_throws:
  assumes t: "throwsUnique init"
  shows "foldO (initializeInput init node stage) xs s = Throw e m' \<Longrightarrow> \<exists>c. e = MultipleBlocks c"
proof (induction xs arbitrary: s)
  case Nil then show ?case by simp
next
  case (Cons x xs)
  obtain k i where x: "x = (k, i)" by (cases x)
  obtain m others where s: "s = (m, others)" by (cases s)
  from Cons.prems consider "initializeInput init node stage x s = Throw e m'"
    | s1 where "foldO (initializeInput init node stage) xs s1 = Throw e m'"
    by (auto simp: bindO_Throw)
  then show ?case
  proof cases
    case 1
    with t show ?thesis by (rule initializeInput_throws)
  next
    case 2 then show ?thesis by (rule Cons.IH)
  qed
qed

lemma initializeBlock_throws: "throwsUnique (initializeBlock H fuel stage ac)"
proof (induction fuel)
  case 0 then show ?case by (simp add: throwsUnique_def)
next
  case (Suc fuel)
  show ?case unfolding throwsUnique_def
  proof (intro allI impI)
    fix node s e m'
    assume a: "initializeBlock H (Suc fuel) stage ac node s = Throw e m'"
    obtain m others where s: "s = (m, others)" by (cases s)
    let ?init = "initializeBlock H fuel stage ac"
    from a consider m3 where "attachBlock node m3 = Throw e m'"
      | xs s4 where "foldO (initializeInput ?init node stage) xs s4 = Throw e m'"
      | entry s5 where "processInitializeOnLink ?init entry stage s5 = Throw e m'"
      unfolding s initializeBlock.simps prod.case Let_def bindO_Throw
      by (auto split: if_splits option.splits)
    then show "\<exists>c. e = MultipleBlocks c"
    proof cases
      case 1 then show ?thesis by (auto simp: attachBlock_def split: if_splits)
    next
      case 2 then show ?thesis using Suc by (rule initializeInputs_throws[rotated])
    next
      case 3 with Suc show ?thesis by (rule processInitializeOnLink_throws)
    qed
  qed
qed



subsection \<open>The initialization loops of \<open>build\<close>\<close>


lemma foldO_visits:
  assumes v: "visits G A0 g"
  shows "initInv G A0 (fst s) \<Longrightarrow> foldO g xs s = Return r
     \<Longrightarrow> initInv G A0 (fst r) \<and> set (attachedBlocks (fst s)) \<subseteq> set (attachedBlocks (fst r))
         \<and> (\<forall>x\<in>set xs. \<forall>b. reachable G x b \<longrightarrow> b \<in> set (attachedBlocks (fst r)))"
proof (induction xs arbitrary: s)
  case Nil then show ?case by simp
next
  case (Cons x xs)
  from Cons.prems(2) obtain s1 where s1: "g x s = Return s1" "foldO g xs s1 = Return r"
    by (auto simp: bindO_Return)
  from v Cons.prems(1) s1(1)
  have a: "initInv G A0 (fst s1)" "set (attachedBlocks (fst s)) \<subseteq> set (attachedBlocks (fst s1))"
    "\<forall>b. reachable G x b \<longrightarrow> b \<in> set (attachedBlocks (fst s1))"
    unfolding visits_def by blast+
  from Cons.IH[OF a(1) s1(2)] a show ?case by auto
qed


lemma foldO_throws:
  assumes t: "throwsUnique g"
  shows "foldO g xs s = Throw e m' \<Longrightarrow> \<exists>c. e = MultipleBlocks c"
proof (induction xs arbitrary: s)
  case Nil then show ?case by simp
next
  case (Cons x xs)
  from Cons.prems consider "g x s = Throw e m'" | s1 where "foldO g xs s1 = Throw e m'"
    by (auto simp: bindO_Throw)
  then show ?case
  proof cases
    case 1 with t show ?thesis unfolding throwsUnique_def by blast
  next
    case 2 then show ?thesis by (rule Cons.IH)
  qed
qed

lemma initializeVertexRoot_visits:
  "graphPreservingHooks H \<Longrightarrow> visits G A0 (initializeVertexRoot H fuel ac)"
  using initializeBlock_visits[of H G A0 fuel Vertex ac]
  unfolding visits_def initializeVertexRoot_def
  by (auto simp: bindO_Return split: prod.splits)

lemma initializeFragmentRoot_visits:
  "graphPreservingHooks H \<Longrightarrow> visits G A0 (initializeFragmentRoot H fuel ac)"
  using initializeBlock_visits[of H G A0 fuel Fragment ac]
  unfolding visits_def initializeFragmentRoot_def
  by (auto simp: bindO_Return split: prod.splits)



lemma initInv_start:
  assumes "blocks ms = blocks m" "attachedBlocks ms = attachedBlocks m"
  shows "initInv (blocks m) (set (attachedBlocks m)) ms"
  using assms by (simp add: initInv_def uniqueOk_def)




lemma initializeVertexRoot_throws: "throwsUnique (initializeVertexRoot H fuel ac)"
  using initializeBlock_throws[of H fuel Vertex ac]
  unfolding throwsUnique_def initializeVertexRoot_def
  by (auto simp: bindO_Throw split: prod.splits)

lemma initializeFragmentRoot_throws: "throwsUnique (initializeFragmentRoot H fuel ac)"
  using initializeBlock_throws[of H fuel Fragment ac]
  unfolding throwsUnique_def initializeFragmentRoot_def
  by (auto simp: bindO_Throw split: prod.splits)

lemma initializeBlocks_throws:
  "initializeBlocks H fuel ac ms = Throw e m' \<Longrightarrow> \<exists>c. e = MultipleBlocks c"
  unfolding initializeBlocks_def bindO_Throw
  by (auto dest: foldO_throws[OF initializeVertexRoot_throws]
                 foldO_throws[OF initializeFragmentRoot_throws])




subsection \<open>\<open>build\<close>\<close>


lemmas example_defs =
  dualMaterial_def dualStore_def duplicateMaterial_def duplicateStore_def
  attachedDuplicateMaterial_def listedDualMaterial_def emptyMaterial_def emptyBlock_def
  plainBlock_def linkTo_def idleHooks_def dualRank_def duplicateRank_def targetOf_def

lemmas build_defs =
  build_def buildVertexStage_def buildFragmentStage_def initializeBlocks_def
  allocateBuildStates_def initializeVertexRoot_def initializeFragmentRoot_def
  initializeInput_def processInitializeOnLink_def attachBlock_def updateBlock_def
  clearInputVariableName_def clearOutputVariableNames_def optimize_def buildStage_def
  copyVertexDeclarations_def newBuildState_def resetDualBlocksOfNodes_def resetDualInput_def
  takeNewBuildId_def Let_def numeral_2_eq_2 VertexAndFragment_def Vertex_def Fragment_def

lemma resetDualBlocksOfNodes_not_Throw [simp]: "resetDualBlocksOfNodes fuel nodes m \<noteq> Throw e m'"
  by (simp add: resetDualBlocksOfNodes_def split: option.splits)

lemma buildFragmentStage_throws:
  "buildFragmentStage H u nodes m = Throw e m' \<Longrightarrow> \<exists>msg. e = BuildFailed msg"
  by (auto simp: buildFragmentStage_def Let_def split: option.splits)

lemma buildVertexStage_throws:
  "buildVertexStage H fuel v ac m = Throw e m' \<Longrightarrow> \<exists>c. e = MultipleBlocks c"
  by (auto simp: buildVertexStage_def bindO_Throw Let_def split: prod.splits
           dest: initializeBlocks_throws)

text \<open>
  C2, as amended.  \<open>build\<close> on a material whose fragment output node list is empty throws
  a structural error before any build state or shared build data is allocated: the state
  at the throw is the material with only \<open>_buildWasSuccessful\<close> cleared.  The error is
  the "at least one fragmentOutputNode" error when the vertex test has passed (the vertex
  output node list is not empty, or the mode is \<open>Particle\<close>), and the "at least one
  vertexOutputNode" error otherwise, since the vertex test comes first.  An empty vertex
  output node list throws the vertex error in every mode but \<open>Particle\<close>, and in mode
  \<open>Particle\<close> the vertex error is never thrown.
\<close>

theorem build_structural_errors:
  "(fragmentOutputNodes m = [] \<longrightarrow>
      build H fuel verbose updateBuildId autoConfigure m =
        Throw (if vertexOutputNodes m = [] \<and> mode m \<noteq> Particle
               then NoVertexOutputNode else NoFragmentOutputNode)
          (m\<lparr>buildWasSuccessful := False\<rparr>))
   \<and> (vertexOutputNodes m = [] \<and> mode m \<noteq> Particle \<longrightarrow>
      build H fuel verbose updateBuildId autoConfigure m =
        Throw NoVertexOutputNode (m\<lparr>buildWasSuccessful := False\<rparr>))
   \<and> (mode m = Particle \<longrightarrow>
      (\<forall>m'. build H fuel verbose updateBuildId autoConfigure m \<noteq> Throw NoVertexOutputNode m'))"
proof (intro conjI impI allI)
  assume "fragmentOutputNodes m = []"
  then show "build H fuel verbose updateBuildId autoConfigure m =
        Throw (if vertexOutputNodes m = [] \<and> mode m \<noteq> Particle
               then NoVertexOutputNode else NoFragmentOutputNode)
          (m\<lparr>buildWasSuccessful := False\<rparr>)"
    by (simp add: build_def Let_def)
next
  assume "vertexOutputNodes m = [] \<and> mode m \<noteq> Particle"
  then show "build H fuel verbose updateBuildId autoConfigure m =
        Throw NoVertexOutputNode (m\<lparr>buildWasSuccessful := False\<rparr>)"
    by (simp add: build_def Let_def)
next
  fix m'
  assume p: "mode m = Particle"
  show "build H fuel verbose updateBuildId autoConfigure m \<noteq> Throw NoVertexOutputNode m'"
  proof
    assume "build H fuel verbose updateBuildId autoConfigure m = Throw NoVertexOutputNode m'"
    with p show False
      by (auto simp: build_def Let_def bindO_Throw split: if_splits prod.splits
            dest: buildVertexStage_throws buildFragmentStage_throws)
  qed
qed

text \<open>The three cases of C2 on the empty material.\<close>

theorem build_structural_errors_witness:
  "build idleHooks 0 False True False emptyMaterial =
     Throw NoVertexOutputNode (emptyMaterial\<lparr>buildWasSuccessful := False\<rparr>)
   \<and> build idleHooks 0 False True False (emptyMaterial\<lparr>mode := Particle\<rparr>) =
     Throw NoFragmentOutputNode (emptyMaterial\<lparr>mode := Particle, buildWasSuccessful := False\<rparr>)
   \<and> build idleHooks 0 False True False (emptyMaterial\<lparr>vertexOutputNodes := [0]\<rparr>) =
     Throw NoFragmentOutputNode (emptyMaterial\<lparr>vertexOutputNodes := [0], buildWasSuccessful := False\<rparr>)"
  using build_structural_errors[of emptyMaterial idleHooks 0 False True False]
    build_structural_errors[of "emptyMaterial\<lparr>mode := Particle\<rparr>" idleHooks 0 False True False]
    build_structural_errors[of "emptyMaterial\<lparr>vertexOutputNodes := [0]\<rparr>" idleHooks 0 False True False]
  by (simp add: emptyMaterial_def)

text \<open>
  C2 as stated fails when both lists are empty and the mode is not \<open>Particle\<close>: the
  fragment output node list is empty and the error thrown is the vertex one.
\<close>

theorem build_fragment_error_counterexample:
  "fragmentOutputNodes emptyMaterial = []
   \<and> build idleHooks 0 False True False emptyMaterial =
       Throw NoVertexOutputNode (emptyMaterial\<lparr>buildWasSuccessful := False\<rparr>)"
  by (simp add: build_def emptyMaterial_def Let_def)


lemma reachable_link: "c \<in> set (links hp a) \<Longrightarrow> reachable hp a c"
  by (rule reachable_step[OF _ reachable_refl])

lemma descending_all:
  "(\<And>a c. c \<in> set (links G a) \<Longrightarrow> rk c < rk a) \<Longrightarrow> descending G rk node"
  by (simp add: descending_def)


lemma graphPreservingHooks_idle: "graphPreservingHooks idleHooks"
  by (simp add: graphPreservingHooks_def keepsGraph_def idleHooks_def)







lemma initializeFragmentRoots_nodes:
  "foldO (initializeFragmentRoot H fuel ac) xs s = Return r
     \<Longrightarrow> snd (snd r) = snd (snd s) @ xs"
proof (induction xs arbitrary: s)
  case Nil then show ?case by simp
next
  case (Cons x xs)
  from Cons.prems obtain s1 where s1: "initializeFragmentRoot H fuel ac x s = Return s1"
    "foldO (initializeFragmentRoot H fuel ac) xs s1 = Return r"
    by (auto simp: bindO_Return)
  from s1(1) have "snd (snd s1) = snd (snd s) @ [x]"
    by (auto simp: initializeFragmentRoot_def bindO_Return split: prod.splits)
  with Cons.IH[OF s1(2)] show ?case by simp
qed

lemma buildVertexStage_fragmentNodes:
  assumes "buildVertexStage H fuel verbose ac m = Return (m5, vertexNodes, fragmentNodes)"
  shows "set (fragmentOutputNodes m) \<subseteq> set fragmentNodes"
proof -
  from assms obtain s1 m2 where
    "foldO (initializeFragmentRoot H fuel ac) (fragmentOutputNodes (allocateBuildStates H verbose m)) s1
       = Return (m2, vertexNodes, fragmentNodes)"
    by (auto simp: buildVertexStage_def initializeBlocks_def bindO_Return Let_def split: prod.splits)
  from initializeFragmentRoots_nodes[OF this] show ?thesis
    by (simp add: allocateBuildStates_def)
qed

lemma resetDualBlocksOfNodes_total:
  assumes d: "\<And>r. r \<in> set nodes \<Longrightarrow> descending hp rk r" and f: "\<And>r. r \<in> set nodes \<Longrightarrow> rk r < fuel"
  shows "\<exists>hp'. foldM (\<lambda>node. resetDualBlocks fuel node ident) nodes hp = Some hp'"
proof (rule foldM_total[where base = hp and ident = ident])
  fix x h assume x: "x \<in> set nodes" and h: "stamped ident hp h"
  show "\<exists>h'. resetDualBlocks fuel x ident h = Some h'"
  proof (rule resetDualBlocks_total)
    show "rk x < fuel" using x by (rule f)
  next
    fix a c assume "reachable h x a" "c \<in> set (links h a)"
    then have "reachable hp x a" "c \<in> set (links hp a)"
      using h by (simp_all add: stamped_reachable stamped_links)
    with d[OF x] show "rk c < rk a" unfolding descending_def by blast
  qed
qed (auto intro: resetDualBlocks_stamped stamped_refl)

text \<open>
  C3.  Let \<open>build\<close> have passed its structural tests and completed the vertex stage with
  the material \<open>m5\<close> and the local list \<open>fragmentNodes\<close>, which holds every fragment
  output node.  If the graph below these nodes has no cycle (ranks descend along the links,
  and the budget exceeds the ranks of the nodes), the reset returns, \<open>build\<close> goes on with
  the fragment stage from the reset material \<open>m6\<close>, and in \<open>m6\<close> every block of target
  \<open>VertexAndFragment\<close> that is reachable from a node of \<open>fragmentNodes\<close>, through
  connected inputs and teleport entry points, has its \<open>buildId\<close> equal to the current
  build id minus one.  Nothing else of the material is changed by the reset.
\<close>

theorem build_resets_dual_blocks:
  assumes checks: "fragmentOutputNodes m \<noteq> []" "vertexOutputNodes m \<noteq> [] \<or> mode m = Particle"
    and vertex: "buildVertexStage H fuel verbose
                   (if vertexCompilationState m = None \<and> \<not> autoConfigure then True else autoConfigure)
                   (m\<lparr>buildWasSuccessful := False\<rparr>) = Return (m5, vertexNodes, fragmentNodes)"
    and acyclic: "\<And>r. r \<in> set fragmentNodes \<Longrightarrow> descending (blocks m5) rk r"
    and fuel: "\<And>r. r \<in> set fragmentNodes \<Longrightarrow> rk r < fuel"
  shows "\<exists>m6. resetDualBlocksOfNodes fuel fragmentNodes m5 = Return m6
           \<and> build H fuel verbose updateBuildId autoConfigure m
               = buildFragmentStage H updateBuildId fragmentNodes m6
           \<and> set (fragmentOutputNodes m) \<subseteq> set fragmentNodes
           \<and> (\<forall>r b. r \<in> set fragmentNodes \<and> reachable (blocks m5) r b
                      \<and> target (blocks m5 b) = Some VertexAndFragment
                   \<longrightarrow> buildId (blocks m6 b) = materialBuildId m5 - 1)
           \<and> stamped (materialBuildId m5 - 1) (blocks m5) (blocks m6)
           \<and> m6 = m5\<lparr>blocks := blocks m6\<rparr>"
proof -
  let ?id = "materialBuildId m5 - 1"
  let ?g = "\<lambda>node. resetDualBlocks fuel node ?id"
  from resetDualBlocksOfNodes_total[OF acyclic fuel, of fragmentNodes ?id]
  obtain hp' where hp': "foldM ?g fragmentNodes (blocks m5) = Some hp'" by blast
  let ?m6 = "m5\<lparr>blocks := hp'\<rparr>"
  have run: "resetDualBlocksOfNodes fuel fragmentNodes m5 = Return ?m6"
    using hp' by (simp add: resetDualBlocksOfNodes_def)
  have b: "build H fuel verbose updateBuildId autoConfigure m
             = buildFragmentStage H updateBuildId fragmentNodes ?m6"
    using checks vertex run by (auto simp: build_def Let_def)
  have roots: "set (fragmentOutputNodes m) \<subseteq> set fragmentNodes"
    using buildVertexStage_fragmentNodes[OF vertex] by simp
  have st: "stamped ?id (blocks m5) hp'"
    using resetDualBlocks_stamped hp' by (rule foldM_stamped)
  have marks: "\<forall>r b. r \<in> set fragmentNodes \<and> reachable (blocks m5) r b
                      \<and> target (blocks m5 b) = Some VertexAndFragment
                   \<longrightarrow> buildId (hp' b) = ?id"
  proof (intro allI impI)
    fix r b
    assume a: "r \<in> set fragmentNodes \<and> reachable (blocks m5) r b
                \<and> target (blocks m5 b) = Some VertexAndFragment"
    show "buildId (hp' b) = ?id"
    proof (rule foldM_marks[where g = ?g and ident = ?id])
      show "foldM ?g fragmentNodes (blocks m5) = Some hp'" by (rule hp')
      show "r \<in> set fragmentNodes" "reachable (blocks m5) r b"
        "target (blocks m5 b) = Some VertexAndFragment" using a by auto
    qed (erule resetDualBlocks_marks, assumption+, erule resetDualBlocks_stamped)
  qed
  show ?thesis
    by (rule exI[of _ ?m6]) (use run b roots marks st in simp)
qed



lemma dualStore_links: "links dualStore a = (if a = 0 \<or> a = 2 then [1] else [])"
  by (simp add: links_def teleportLink_def example_defs)

lemma wiring_links_eq:
  assumes "\<And>n. wiring (hp n) = wiring (G n)"
  shows "links hp = links G"
proof (rule ext)
  fix n show "links hp n = links G n" using assms by (rule links_wiring)
qed

lemma optimize_idle: "optimize idleHooks m = m"
  by (simp add: optimize_def idleHooks_def)

lemma buildStage_idle: "buildStage idleHooks stage nodes m = m"
  unfolding buildStage_def by (induction nodes) (simp_all add: idleHooks_def)

lemma wiring_copyVertexDeclarations:
  "wiring (blocks (copyVertexDeclarations m) n) = wiring (blocks m n)"
  by (simp add: copyVertexDeclarations_def split: option.splits)

lemma buildVertexStage_idle_wiring:
  assumes "buildVertexStage idleHooks fuel verbose ac m = Return (m5, vertexNodes, fragmentNodes)"
  shows "wiring (blocks m5 n) = wiring (blocks m n)"
proof -
  let ?ms = "allocateBuildStates idleHooks verbose m"
  let ?G = "blocks m" and ?A = "set (attachedBlocks m)"
  have "initInv ?G ?A ?ms"
    by (rule initInv_start) (simp_all add: allocateBuildStates_def)
  then have inv: "initInv ?G ?A (fst (?ms, ([]::block_id list), ([]::block_id list)))"
    by (simp only: fst_conv)
  from assms obtain s2 where i: "initializeBlocks idleHooks fuel ac ?ms = Return s2"
    and m5: "(case s2 of (m2, vn, fn) \<Rightarrow> Return (copyVertexDeclarations m2, vn, fn))
               = Return (m5, vertexNodes, fragmentNodes)"
    unfolding buildVertexStage_def bindO_Return optimize_idle buildStage_idle Let_def by blast
  obtain m2 vn fn where s2: "s2 = (m2, vn, fn)" by (cases s2)
  from m5 have m5': "m5 = copyVertexDeclarations m2" by (simp add: s2)
  from i obtain s1 where s1:
    "foldO (initializeVertexRoot idleHooks fuel ac) (vertexOutputNodes ?ms) (?ms, [], []) = Return s1"
    "foldO (initializeFragmentRoot idleHooks fuel ac) (fragmentOutputNodes ?ms) s1 = Return s2"
    unfolding initializeBlocks_def bindO_Return by blast
  from foldO_visits[OF initializeVertexRoot_visits[OF graphPreservingHooks_idle] inv s1(1)]
  have "initInv ?G ?A (fst s1)" by blast
  from foldO_visits[OF initializeFragmentRoot_visits[OF graphPreservingHooks_idle] this s1(2)]
  have "initInv ?G ?A m2" by (simp add: s2)
  then have "wiring (blocks m2 n) = wiring (blocks m n)" by (rule initInv_wiring)
  then show ?thesis by (simp only: m5' wiring_copyVertexDeclarations)
qed

text \<open>
  In \<open>dualMaterial\<close> the dual block 1 has \<open>buildId\<close> 0 after the vertex stage and
  \<open>- 1\<close> (the build id 0 minus one) after the reset.
\<close>

theorem build_resets_dual_blocks_witness:
  "\<exists>m5 m6. buildVertexStage idleHooks 2 False True (dualMaterial\<lparr>buildWasSuccessful := False\<rparr>)
               = Return (m5, [2, 1], [1, 0])
     \<and> resetDualBlocksOfNodes 2 [1, 0] m5 = Return m6
     \<and> build idleHooks 2 False True False dualMaterial = buildFragmentStage idleHooks True [1, 0] m6
     \<and> target (blocks m5 1) = Some VertexAndFragment
     \<and> buildId (blocks m5 1) = 0 \<and> materialBuildId m5 = 0
     \<and> buildId (blocks m6 1) = - 1"
proof -
  have "\<exists>m5. buildVertexStage idleHooks 2 False True (dualMaterial\<lparr>buildWasSuccessful := False\<rparr>)
               = Return (m5, [2, 1], [1, 0])
          \<and> target (blocks m5 1) = Some VertexAndFragment
          \<and> buildId (blocks m5 1) = 0 \<and> materialBuildId m5 = 0"
    by (simp add: build_defs example_defs)
  then obtain m5 where m5:
    "buildVertexStage idleHooks 2 False True (dualMaterial\<lparr>buildWasSuccessful := False\<rparr>)
       = Return (m5, [2, 1], [1, 0])"
    "target (blocks m5 1) = Some VertexAndFragment" "buildId (blocks m5 1) = 0"
    "materialBuildId m5 = 0"
    by blast
  have w: "\<And>n. wiring (blocks m5 n) = wiring (dualStore n)"
    using buildVertexStage_idle_wiring[OF m5(1)] by (simp add: dualMaterial_def emptyMaterial_def)
  have l: "links (blocks m5) = links dualStore" using w by (rule wiring_links_eq)
  have d: "\<And>r. r \<in> set [1, 0] \<Longrightarrow> descending (blocks m5) dualRank r"
    by (rule descending_all) (auto simp: l dualStore_links dualRank_def split: if_splits)
  have v: "buildVertexStage idleHooks 2 False
             (if vertexCompilationState dualMaterial = None \<and> \<not> False then True else False)
             (dualMaterial\<lparr>buildWasSuccessful := False\<rparr>) = Return (m5, [2, 1], [1, 0])"
    using m5(1) by (simp add: example_defs)
  have c1: "fragmentOutputNodes dualMaterial \<noteq> []"
    and c2: "vertexOutputNodes dualMaterial \<noteq> [] \<or> mode dualMaterial = Particle"
    by (simp_all add: dualMaterial_def emptyMaterial_def)
  have f: "\<And>r. r \<in> set [1, 0] \<Longrightarrow> dualRank r < 2" by (simp add: dualRank_def)
  from build_resets_dual_blocks[where updateBuildId = True, OF c1 c2 v d f]
  obtain m6 where m6: "resetDualBlocksOfNodes 2 [1, 0] m5 = Return m6"
    "build idleHooks 2 False True False dualMaterial = buildFragmentStage idleHooks True [1, 0] m6"
    "\<forall>r b. r \<in> set [1, 0] \<and> reachable (blocks m5) r b
                      \<and> target (blocks m5 b) = Some VertexAndFragment
                   \<longrightarrow> buildId (blocks m6 b) = materialBuildId m5 - 1"
    by blast
  have "1 \<in> set [1, 0::nat] \<and> reachable (blocks m5) 1 1 \<and> target (blocks m5 1) = Some VertexAndFragment"
    using m5(2) by (simp add: reachable_refl del: One_nat_def)
  with m6(3) have "buildId (blocks m6 1) = materialBuildId m5 - 1" by blast
  then have "buildId (blocks m6 1) = - 1" by (simp add: m5(4))
  with m5 m6(1,2) show ?thesis by blast
qed



subsection \<open>\<open>_gatherBlocks\<close>\<close>


lemma gatherInputs_links:
  "foldM (gatherInput gather node) ins l = foldM gather (linkedBlocks node ins) l"
  by (induction ins arbitrary: l) (auto simp: gatherInput_def split: option.splits)

lemma gatherBlocks_unfold:
  "gatherBlocks (Suc fuel) hp node l =
     (if node \<in> set l then Some l
      else foldM (gatherBlocks fuel hp) (links hp node) (l @ [node]))"
  by (simp add: gatherInputs_links links_def foldM_append teleportLink_def split: option.splits)

lemma gathered_refl: "gathered hp S l l"
  by (simp add: gathered_def)

lemma gathered_trans:
  assumes "gathered hp S l l1" "gathered hp S l1 l2"
  shows "gathered hp S l l2"
proof -
  from assms(1) obtain n1 where n1: "l1 = l @ n1" "distinct l \<longrightarrow> distinct l1" "set n1 \<subseteq> S"
    "\<forall>x\<in>set n1. set (links hp x) \<subseteq> set l1" unfolding gathered_def by blast
  from assms(2) obtain n2 where n2: "l2 = l1 @ n2" "distinct l1 \<longrightarrow> distinct l2" "set n2 \<subseteq> S"
    "\<forall>x\<in>set n2. set (links hp x) \<subseteq> set l2" unfolding gathered_def by blast
  show ?thesis unfolding gathered_def
    by (rule exI[of _ "n1 @ n2"]) (use n1 n2 in auto)
qed

lemma gathered_mono: "gathered hp S l l' \<Longrightarrow> S \<subseteq> T \<Longrightarrow> gathered hp T l l'"
  unfolding gathered_def by blast

lemma gathered_subset: "gathered hp S l l' \<Longrightarrow> set l \<subseteq> set l'"
  unfolding gathered_def by auto

lemma foldM_gathered:
  assumes step: "\<And>c l l'. c \<in> set cs \<Longrightarrow> g c l = Some l' \<Longrightarrow> gathered hp (S c) l l' \<and> c \<in> set l'"
  shows "foldM g cs l = Some l' \<Longrightarrow> gathered hp (\<Union>c\<in>set cs. S c) l l' \<and> set cs \<subseteq> set l'"
  using step
proof (induction cs arbitrary: l)
  case Nil then show ?case by (simp add: gathered_refl)
next
  case (Cons c cs)
  from Cons.prems(1) obtain l1 where l1: "g c l = Some l1" "foldM g cs l1 = Some l'"
    by (auto split: option.splits)
  have a: "gathered hp (S c) l l1" "c \<in> set l1" using Cons.prems(2)[OF _ l1(1)] by auto
  have b: "gathered hp (\<Union>c\<in>set cs. S c) l1 l'" "set cs \<subseteq> set l'"
    using Cons.IH[OF l1(2)] Cons.prems(2) by auto
  have "gathered hp (\<Union>c\<in>set (c # cs). S c) l l'"
    by (rule gathered_trans[OF gathered_mono[OF a(1)] gathered_mono[OF b(1)]]) auto
  moreover have "c \<in> set l'" using a(2) gathered_subset[OF b(1)] by auto
  ultimately show ?case using b(2) by simp
qed

lemma gatherBlocks_gathered:
  "gatherBlocks fuel hp node l = Some l'
     \<Longrightarrow> gathered hp {b. reachable hp node b} l l' \<and> node \<in> set l'"
proof (induction fuel arbitrary: node l l')
  case 0 then show ?case by simp
next
  case (Suc fuel)
  show ?case
  proof (cases "node \<in> set l")
    case True
    with Suc.prems show ?thesis by (simp add: gatherBlocks_unfold gathered_refl del: gatherBlocks.simps)
  next
    case False
    with Suc.prems have run: "foldM (gatherBlocks fuel hp) (links hp node) (l @ [node]) = Some l'"
      by (simp add: gatherBlocks_unfold del: gatherBlocks.simps)
    have g: "gathered hp (\<Union>c\<in>set (links hp node). {b. reachable hp c b}) (l @ [node]) l'"
      and sub: "set (links hp node) \<subseteq> set l'"
      using foldM_gathered[where g = "gatherBlocks fuel hp" and S = "\<lambda>c. {b. reachable hp c b}",
              OF Suc.IH run] by auto
    from g obtain new where new: "l' = (l @ [node]) @ new" "distinct (l @ [node]) \<longrightarrow> distinct l'"
      "set new \<subseteq> (\<Union>c\<in>set (links hp node). {b. reachable hp c b})"
      "\<forall>x\<in>set new. set (links hp x) \<subseteq> set l'"
      unfolding gathered_def by blast
    have r: "set new \<subseteq> {b. reachable hp node b}"
      using new(3) by (auto intro: reachable_step)
    have "gathered hp {b. reachable hp node b} l l'"
      unfolding gathered_def
      by (rule exI[of _ "node # new"]) (use new r sub False in \<open>auto simp: reachable_refl\<close>)
    then show ?thesis using new(1) by simp
  qed
qed

lemma reachable_closed:
  assumes "reachable hp a b" "a \<in> U" "\<And>x c. x \<in> U \<Longrightarrow> c \<in> set (links hp x) \<Longrightarrow> c \<in> U"
  shows "b \<in> U"
  using assms(1,2) unfolding reachable_def
  by (induction rule: rtrancl_induct) (auto intro: assms(3))

lemma foldM_gather_total:
  assumes fin: "finite U"
    and step: "\<And>c l. c \<in> set cs \<Longrightarrow> card (U - set l) < k \<Longrightarrow> \<exists>l'. g c l = Some l' \<and> set l \<subseteq> set l'"
  shows "card (U - set l) < k \<Longrightarrow> \<exists>l'. foldM g cs l = Some l' \<and> set l \<subseteq> set l'"
  using step
proof (induction cs arbitrary: l)
  case Nil then show ?case by simp
next
  case (Cons c cs)
  from Cons.prems(2)[of c l] Cons.prems(1) obtain l1 where l1: "g c l = Some l1" "set l \<subseteq> set l1"
    by auto
  have "card (U - set l1) \<le> card (U - set l)" using fin l1(2) by (intro card_mono) auto
  with Cons.prems(1) have "card (U - set l1) < k" by simp
  from Cons.IH[OF this] Cons.prems(2) obtain l' where "foldM g cs l1 = Some l'" "set l1 \<subseteq> set l'"
    by auto
  with l1 show ?case by auto
qed

lemma gatherBlocks_total:
  assumes fin: "finite U" and closed: "\<And>x c. x \<in> U \<Longrightarrow> c \<in> set (links hp x) \<Longrightarrow> c \<in> U"
  shows "node \<in> U \<Longrightarrow> card (U - set l) < fuel
           \<Longrightarrow> \<exists>l'. gatherBlocks fuel hp node l = Some l' \<and> set l \<subseteq> set l'"
proof (induction fuel arbitrary: node l)
  case 0 then show ?case by simp
next
  case (Suc fuel)
  show ?case
  proof (cases "node \<in> set l")
    case True then show ?thesis by (simp add: gatherBlocks_unfold del: gatherBlocks.simps)
  next
    case False
    have "U - set (l @ [node]) \<subset> U - set l" using False Suc.prems(1) by auto
    then have "card (U - set (l @ [node])) < card (U - set l)"
      using fin by (intro psubset_card_mono) auto
    with Suc.prems(2) have c: "card (U - set (l @ [node])) < fuel" by simp
    have "\<exists>l'. foldM (gatherBlocks fuel hp) (links hp node) (l @ [node]) = Some l'
             \<and> set (l @ [node]) \<subseteq> set l'"
    proof (rule foldM_gather_total[OF fin _ c])
      fix c l assume "c \<in> set (links hp node)" "card (U - set l) < fuel"
      then show "\<exists>l'. gatherBlocks fuel hp c l = Some l' \<and> set l \<subseteq> set l'"
        using closed[OF Suc.prems(1)] by (intro Suc.IH) auto
    qed
    then show ?thesis using False by (auto simp: gatherBlocks_unfold simp del: gatherBlocks.simps)
  qed
qed


text \<open>
  C8.  On a graph whose part below the root is finite, \<open>_gatherBlocks\<close> returns (a budget
  above the number of reachable blocks is enough).  Started on a list without duplicates
  whose blocks have all their links listed (the empty list, or the list left by earlier
  calls), it only appends to the list, and the list it returns has no duplicates and
  holds, beside the blocks listed before, exactly the blocks reachable from the root
  through connected inputs and teleport entry points: each reachable block is listed
  exactly once, whatever the number of paths that lead to it.
\<close>

theorem gatherBlocks_each_reachable_once:
  assumes fin: "finite {b. reachable hp rootNode b}"
    and fuel: "card {b. reachable hp rootNode b} < fuel"
    and listed: "distinct list" "\<forall>x\<in>set list. set (links hp x) \<subseteq> set list"
  shows "\<exists>new. gatherBlocks fuel hp rootNode list = Some (list @ new)
           \<and> distinct (list @ new)
           \<and> set (list @ new) = set list \<union> {b. reachable hp rootNode b}
           \<and> (\<forall>x\<in>set (list @ new). set (links hp x) \<subseteq> set (list @ new))"
proof -
  let ?U = "{b. reachable hp rootNode b}"
  have closed: "\<And>x c. x \<in> ?U \<Longrightarrow> c \<in> set (links hp x) \<Longrightarrow> c \<in> ?U"
    by (auto intro: reachable_trans reachable_link)
  have "card (?U - set list) \<le> card ?U" using fin by (intro card_mono) auto
  with fuel have "card (?U - set list) < fuel" by simp
  then have "\<exists>l'. gatherBlocks fuel hp rootNode list = Some l' \<and> set list \<subseteq> set l'"
  proof (rule gatherBlocks_total[where U = ?U, rotated 3])
    show "finite ?U" by fact
    show "\<And>x c. x \<in> ?U \<Longrightarrow> c \<in> set (links hp x) \<Longrightarrow> c \<in> ?U" by (rule closed)
    show "rootNode \<in> ?U" by (simp add: reachable_refl)
  qed
  then obtain l' where l': "gatherBlocks fuel hp rootNode list = Some l'" by blast
  from gatherBlocks_gathered[OF l'] obtain new where new: "l' = list @ new"
    "distinct list \<longrightarrow> distinct l'" "set new \<subseteq> ?U" "\<forall>x\<in>set new. set (links hp x) \<subseteq> set l'"
    and root: "rootNode \<in> set l'"
    unfolding gathered_def by blast
  have cl: "\<forall>x\<in>set l'. set (links hp x) \<subseteq> set l'"
    using listed(2) new(1,4) by auto
  have "?U \<subseteq> set l'"
  proof
    fix b assume "b \<in> ?U"
    then have "reachable hp rootNode b" by simp
    then show "b \<in> set l'" using root
      by (rule reachable_closed) (use cl in auto)
  qed
  then have "set l' = set list \<union> ?U" using new(1,3) by auto
  with l' new(1,2) listed(1) cl show ?thesis by auto
qed

lemma teleportStore_links:
  "links teleportStore a =
     (if a = 0 then [1, 2] else if a = 1 then [3] else if a = 2 then [4]
      else if a = 3 then [2] else [])"
  by (simp add: links_def teleportLink_def teleportStore_def example_defs)

lemma teleportStore_reachable: "{b. reachable teleportStore 0 b} \<subseteq> {0, 1, 2, 3, 4}"
proof
  fix b assume "b \<in> {b. reachable teleportStore 0 b}"
  then have "reachable teleportStore 0 b" by simp
  then show "b \<in> {0, 1, 2, 3, 4}"
    by (rule reachable_closed) (auto simp: teleportStore_links split: if_splits)
qed

text \<open>
  In \<open>teleportStore\<close> the shared block 2 is reached through the teleport link and through
  an ordinary link; it is listed once.
\<close>

theorem gatherBlocks_each_reachable_once_witness:
  "\<exists>new. gatherBlocks 6 teleportStore 0 [] = Some new \<and> new = [0, 1, 3, 2, 4]
      \<and> distinct new \<and> set new = {b. reachable teleportStore 0 b}"
proof -
  have fin: "finite {b. reachable teleportStore 0 b}"
    using teleportStore_reachable by (rule finite_subset) simp
  have "card {b. reachable teleportStore 0 b} \<le> card {0, 1, 2, 3, 4::nat}"
    using teleportStore_reachable by (intro card_mono) simp_all
  then have fuel: "card {b. reachable teleportStore 0 b} < 6" by simp
  from gatherBlocks_each_reachable_once[OF fin fuel, of "[]"]
  obtain new where new: "gatherBlocks 6 teleportStore 0 [] = Some new" "distinct new"
    "set new = {b. reachable teleportStore 0 b}" by auto
  have "gatherBlocks 6 teleportStore 0 [] = Some [0, 1, 3, 2, 4]"
    by (simp add: gatherBlocks_unfold teleportStore_links eval_nat_numeral del: gatherBlocks.simps)
  with new show ?thesis by simp
qed



subsection \<open>The core material\<close>


lemmas core_example_defs =
  exampleCore_def idleCoreHooks_def cleanDefines_def emptyBuildState_def newBuildState_def
  colouredMesh_def idlePrePass_def normalOnlyDefines_def

text \<open>
  C1, as amended.  On a draw with a bound effect where a rebind is required,
  \<open>bindForSubMesh\<close> makes its calls in this order: the cached matrices and the world
  transmission of every input block (\<open>bindOnlyWorldMatrix\<close>), then \<open>bind\<close> of every
  bindable block, then \<open>bind\<close> of every forced bindable block, then \<open>_transmit\<close> of
  every input block, then \<open>_afterBind\<close>.  So the values are pushed in the order bindable
  blocks, forced bindable blocks, input blocks.
\<close>

theorem bindForSubMesh_order:
  assumes "mustRebind"
  shows "snd (bindForSubMesh mustRebind (Some effect) m) =
           (if needWorldViewMatrix m then [WorldViewMatrix] else [])
           @ (if needWorldViewProjectionMatrix m then [WorldViewProjectionMatrix] else [])
           @ map TransmitWorld (inputBlocks m)
           @ map Bind (bindableBlocks m)
           @ map Bind (forcedBindableBlocks m)
           @ map Transmit (inputBlocks m)
           @ [AfterBind]
         \<and> filter isValuePush (snd (bindForSubMesh mustRebind (Some effect) m)) =
           map Bind (bindableBlocks m) @ map Bind (forcedBindableBlocks m)
           @ map Transmit (inputBlocks m)"
proof -
  have f: "\<And>xs. filter isValuePush (map Bind xs) = map Bind xs"
    "\<And>xs. filter isValuePush (map Transmit xs) = map Transmit xs"
    "\<And>xs. filter isValuePush (map TransmitWorld xs) = []"
    by (induct_tac xs, simp_all)+
  show ?thesis using assms
    by (simp add: bindForSubMesh_def bindOnlyWorldMatrix_def Let_def f)
qed

text \<open>The calls of a rebind on \<open>exampleCore\<close>.\<close>

theorem bindForSubMesh_order_witness:
  "snd (bindForSubMesh True (Some 7) exampleCore) =
     [TransmitWorld 1, Bind 2, Bind 3, Transmit 1, AfterBind]"
  using bindForSubMesh_order[of True 7 exampleCore]
  by (simp add: exampleCore_def)

text \<open>
  C1 as stated fails: the value of the input block 1 is pushed after the bindable block 2
  and the forced bindable block 3, not before them.
\<close>

theorem bindForSubMesh_inputs_last_counterexample:
  "filter isValuePush (snd (bindForSubMesh True (Some 7) exampleCore)) = [Bind 2, Bind 3, Transmit 1]
   \<and> filter isValuePush (snd (bindForSubMesh True (Some 7) exampleCore))
       \<noteq> [Transmit 1, Bind 2, Bind 3]"
  by (simp add: bindForSubMesh_def bindOnlyWorldMatrix_def exampleCore_def Let_def)





lemma uv_names:
  "uvDefine 1 = ''UV1''" "uvDefine 2 = ''UV2''" "uvDefine 3 = ''UV3''"
  "uvDefine 4 = ''UV4''" "uvDefine 5 = ''UV5''" "uvDefine 6 = ''UV6''"
  "uvKind 1 = ''uv''" "uvKind 2 = ''uv2''" "uvKind 3 = ''uv3''"
  "uvKind 4 = ''uv4''" "uvKind 5 = ''uv5''" "uvKind 6 = ''uv6''"
  "uvDefine (Suc 0) = ''UV1''" "uvKind (Suc 0) = ''uv''"
  by (simp_all add: uvDefine_def uvKind_def)

lemma uv_range: "[1 ..< Suc MAX_SUPPORTED_UV_SETS] = [1, 2, 3, 4, 5, 6]"
  by (simp add: MAX_SUPPORTED_UV_SETS_def upt_rec)

lemma otherCategories_assign [simp]: "otherCategories (assignDefine k v d) = otherCategories d"
  by (simp add: otherCategories_def assignDefine_def)

lemma otherCategories_mark [simp]: "otherCategories (markAsAttributesDirty d) = otherCategories d"
  by (simp add: otherCategories_def markAsAttributesDirty_def)

lemma defineValues_assign [simp]:
  "defineValues (assignDefine k v d) = (defineValues d)(k \<mapsto> DefBool v)"
  by (simp add: assignDefine_def)

lemma attributes_mark [simp]:
  "areAttributesDirty (markAsAttributesDirty d)" "isDirty (markAsAttributesDirty d)"
  "defineValues (markAsAttributesDirty d) = defineValues d"
  by (simp_all add: markAsAttributesDirty_def)

lemma attributeDefines_unfolded:
  "attributeDefines prePass oit mesh defines =
     (let n = isVerticesDataPresent mesh NormalKind;
          t = isVerticesDataPresent mesh TangentKind;
          c = (useVertexColors mesh \<and> isVerticesDataPresent mesh ColorKind);
          u = (\<lambda>i. isVerticesDataPresent mesh (uvKind i));
          d3 = assignDefine ''VERTEXCOLOR_NME'' c
                 (assignDefine ''TANGENT'' t (assignDefine ''NORMAL'' n defines))
      in (prePass (\<not> oit)
            (assignDefine ''UV6'' (u 6) (assignDefine ''UV5'' (u 5) (assignDefine ''UV4'' (u 4)
              (assignDefine ''UV3'' (u 3) (assignDefine ''UV2'' (u 2)
                (assignDefine ''UV1'' (u 1) d3)))))),
          (\<exists>i\<in>{1, 2, 3, 4, 5, 6}. defineValues defines (uvDefine i) \<noteq> Some (DefBool (u i)))))"
  unfolding attributeDefines_def uv_range Let_def fold_simps prepareUV_def prod.case fst_conv snd_conv
  by (auto simp: uv_names)

lemma string_neqs [simp]:
  "''NORMAL'' \<noteq> ''TANGENT''" "''NORMAL'' \<noteq> ''VERTEXCOLOR_NME''" "''TANGENT'' \<noteq> ''VERTEXCOLOR_NME''"
  by simp_all

text \<open>
  C5.  When the mesh differs from the defines in an attribute-derived capability (one of
  \<open>NORMAL\<close>, \<open>TANGENT\<close>, \<open>VERTEXCOLOR_NME\<close>, \<open>UV1\<close> to \<open>UV6\<close>; one such difference is
  enough), \<open>_prepareDefinesForAttributes\<close> marks the attributes-dirty category, and every
  other dirty category is as it was before the call.  The pre-pass helper, which is not
  part of the given sources, is taken to leave the dirty categories and the attribute
  defines alone.
\<close>

theorem prepareDefinesForAttributes_marks_attributes_only:
  assumes keeps: "keepsAttributes prePass"
    and change: "\<exists>entry \<in> set (attributeCapabilities mesh).
                   defineValues defines (fst entry) \<noteq> Some (DefBool (snd entry))"
  shows "areAttributesDirty (prepareDefinesForAttributes prePass oit mesh defines)
         \<and> otherCategories (prepareDefinesForAttributes prePass oit mesh defines)
             = otherCategories defines"
proof -
  from keeps have k: "\<And>flag d. otherCategories (prePass flag d) = otherCategories d"
    "\<And>flag d. defineValues (prePass flag d) ''NORMAL'' = defineValues d ''NORMAL''"
    "\<And>flag d. defineValues (prePass flag d) ''TANGENT'' = defineValues d ''TANGENT''"
    "\<And>flag d. defineValues (prePass flag d) ''VERTEXCOLOR_NME'' = defineValues d ''VERTEXCOLOR_NME''"
    unfolding keepsAttributes_def by blast+
  from change have c:
    "defineValues defines ''NORMAL'' \<noteq> Some (DefBool (isVerticesDataPresent mesh NormalKind))
     \<or> defineValues defines ''TANGENT'' \<noteq> Some (DefBool (isVerticesDataPresent mesh TangentKind))
     \<or> defineValues defines ''VERTEXCOLOR_NME''
          \<noteq> Some (DefBool (useVertexColors mesh \<and> isVerticesDataPresent mesh ColorKind))
     \<or> (\<exists>i\<in>{1, 2, 3, 4, 5, 6}. defineValues defines (uvDefine i)
            \<noteq> Some (DefBool (isVerticesDataPresent mesh (uvKind i))))"
    unfolding attributeCapabilities_def uv_range by auto
  show ?thesis
    unfolding prepareDefinesForAttributes_def attributeDefines_unfolded Let_def fst_conv snd_conv
    using c by (auto simp: k)
qed

text \<open>A vertex-colour channel appears on a mesh that had normals only.\<close>

theorem prepareDefinesForAttributes_marks_attributes_only_witness:
  "defineValues normalOnlyDefines ''VERTEXCOLOR_NME'' = Some (DefBool False)
   \<and> areAttributesDirty (prepareDefinesForAttributes idlePrePass False colouredMesh normalOnlyDefines)
   \<and> otherCategories (prepareDefinesForAttributes idlePrePass False colouredMesh normalOnlyDefines)
       = [False, False, False, False, False, False, False]"
proof -
  have k: "keepsAttributes idlePrePass" by (simp add: keepsAttributes_def idlePrePass_def)
  have "(''VERTEXCOLOR_NME'', True) \<in> set (attributeCapabilities colouredMesh)"
    by (simp add: attributeCapabilities_def colouredMesh_def ColorKind_def)
  moreover have "defineValues normalOnlyDefines ''VERTEXCOLOR_NME'' \<noteq> Some (DefBool True)"
    by (simp add: normalOnlyDefines_def cleanDefines_def)
  ultimately have "\<exists>entry \<in> set (attributeCapabilities colouredMesh).
                   defineValues normalOnlyDefines (fst entry) \<noteq> Some (DefBool (snd entry))"
    by force
  from prepareDefinesForAttributes_marks_attributes_only[OF k this, of False]
  show ?thesis by (simp add: normalOnlyDefines_def cleanDefines_def otherCategories_def)
qed



lemma mergeInto_Cons:
  "mergeInto V (x # xs) = mergeInto (if x \<in> set V then V else V @ [x]) xs"
  by (simp add: mergeInto_def)

lemma remdups_snoc: "remdups (A @ [x]) = remdups (filter (\<lambda>a. a \<noteq> x) A) @ [x]"
  by (induction A) auto

lemma mergeInto_eq: "mergeInto V F = V @ newNames V F"
proof (induction F arbitrary: V)
  case Nil then show ?case by (simp add: mergeInto_def newNames_def)
next
  case (Cons x xs)
  show ?case
  proof (cases "x \<in> set V")
    case True
    then show ?thesis by (simp add: mergeInto_Cons Cons.IH newNames_def)
  next
    case False
    have "filter (\<lambda>u. u \<notin> set (V @ [x])) xs = filter (\<lambda>a. a \<noteq> x) (filter (\<lambda>u. u \<notin> set V) xs)"
      by (auto intro: filter_cong)
    then have "rev (filter (\<lambda>u. u \<notin> set (V @ [x])) xs)
                 = filter (\<lambda>a. a \<noteq> x) (rev (filter (\<lambda>u. u \<notin> set V) xs))"
      by (simp only: rev_filter)
    then have e: "filter (\<lambda>a. a \<noteq> x) (rev (filter (\<lambda>u. u \<notin> set V) xs))
                 = rev (filter (\<lambda>u. u \<notin> set (V @ [x])) xs)" by (rule sym)
    have "newNames V (x # xs) = rev (remdups (rev (filter (\<lambda>u. u \<notin> set V) xs) @ [x]))"
      using False by (simp add: newNames_def)
    also have "\<dots> = rev (remdups (filter (\<lambda>a. a \<noteq> x) (rev (filter (\<lambda>u. u \<notin> set V) xs))) @ [x])"
      by (simp only: remdups_snoc)
    also have "\<dots> = x # newNames (V @ [x]) xs"
      unfolding e newNames_def by simp
    finally have "newNames V (x # xs) = x # newNames (V @ [x]) xs" .
    with False show ?thesis by (simp add: mergeInto_Cons Cons.IH)
  qed
qed

lemma newNames_props: "distinct (newNames V F)" "set (newNames V F) = set F - set V"
  by (auto simp: newNames_def)

text \<open>
  C6.  On a cache miss \<open>_processDefines\<close> returns a result whose merged uniform list is
  the uniform list of the vertex stage, in its order, followed by the uniforms of the
  fragment stage that the vertex list does not hold, each once, in the order of their
  first occurrence; the merged sampler list is built in the same way from the two sampler
  lists.  The lists of the stages are those at the start of the merge, after the
  repeatable content generators and the dynamic uniform blocks have run.  The merged
  lists are also the lists the vertex state holds afterwards.
\<close>

theorem processDefines_merges_stage_lists:
  assumes "isDirty (preparedDefines H m defines)"
  shows "\<exists>r d' m'. processDefines H m defines = (Some r, d', m')
           \<and> mergedUniforms r =
               uniforms (fst (namesAtMerge H m defines))
               @ newNames (uniforms (fst (namesAtMerge H m defines)))
                   (uniforms (snd (namesAtMerge H m defines)))
           \<and> mergedSamplers r =
               samplers (fst (namesAtMerge H m defines))
               @ newNames (samplers (fst (namesAtMerge H m defines)))
                   (samplers (snd (namesAtMerge H m defines)))
           \<and> distinct (newNames (uniforms (fst (namesAtMerge H m defines)))
                          (uniforms (snd (namesAtMerge H m defines))))
           \<and> set (newNames (uniforms (fst (namesAtMerge H m defines)))
                     (uniforms (snd (namesAtMerge H m defines))))
               = set (uniforms (snd (namesAtMerge H m defines)))
                 - set (uniforms (fst (namesAtMerge H m defines)))
           \<and> distinct (newNames (samplers (fst (namesAtMerge H m defines)))
                          (samplers (snd (namesAtMerge H m defines))))
           \<and> set (newNames (samplers (fst (namesAtMerge H m defines)))
                     (samplers (snd (namesAtMerge H m defines))))
               = set (samplers (snd (namesAtMerge H m defines)))
                 - set (samplers (fst (namesAtMerge H m defines)))
           \<and> uniforms (coreVertexState m') = mergedUniforms r
           \<and> samplers (coreVertexState m') = mergedSamplers r"
  using assms
  by (simp add: processDefines_def namesAtMerge_def Let_def mergeInto_eq newNames_props)

text \<open>
  On \<open>exampleCore\<close> the fragment uniform \<open>u_color\<close> is already a vertex uniform and
  \<open>u_time\<close> occurs twice: the merged list holds each once.
\<close>

theorem processDefines_merges_stage_lists_witness:
  "\<exists>r d' m'. processDefines idleCoreHooks exampleCore dirtyDefines = (Some r, d', m')
     \<and> uniforms (fst (namesAtMerge idleCoreHooks exampleCore dirtyDefines)) = [''world'', ''u_color'']
     \<and> uniforms (snd (namesAtMerge idleCoreHooks exampleCore dirtyDefines))
         = [''u_color'', ''u_time'', ''u_time'']
     \<and> mergedUniforms r = [''world'', ''u_color'', ''u_time'']
     \<and> mergedSamplers r = [''diffuse'', ''bump'']"
proof -
  have p: "preparedDefines idleCoreHooks exampleCore dirtyDefines = dirtyDefines"
    by (simp add: preparedDefines_def idleCoreHooks_def exampleCore_def Let_def)
  have d: "isDirty (preparedDefines idleCoreHooks exampleCore dirtyDefines)"
    unfolding p by (simp add: dirtyDefines_def)
  have n: "namesAtMerge idleCoreHooks exampleCore dirtyDefines
             = ((coreVertexState exampleCore)\<lparr>compilationString := ''''\<rparr>,
                (coreFragmentState exampleCore)\<lparr>compilationString := ''''\<rparr>)"
    by (simp add: namesAtMerge_def resplicedStates_def idleCoreHooks_def exampleCore_def
          emptyBuildState_def newBuildState_def Let_def)
  from processDefines_merges_stage_lists[OF d]
  show ?thesis
    unfolding n by (auto simp: exampleCore_def newNames_def emptyBuildState_def newBuildState_def)
qed

subsection \<open>The round trip of \<open>serialize\<close> and \<open>parseSerializedObject\<close>\<close>









lemma newRef_map: "x \<notin> set xs \<Longrightarrow> map (newRef (x # xs) r) xs = map (newRef xs (Suc r)) xs"
  by (induction xs) auto

lemma newRef_upt: "distinct xs \<Longrightarrow> map (newRef xs r) xs = [r ..< r + length xs]"
proof (induction xs arbitrary: r)
  case Nil then show ?case by simp
next
  case (Cons x xs)
  from Cons.prems have x: "x \<notin> set xs" and d: "distinct xs" by simp_all
  have "map (newRef (x # xs) r) xs = map (newRef xs (Suc r)) xs"
    using x by (rule newRef_map)
  also have "\<dots> = [Suc r ..< Suc r + length xs]" using d by (rule Cons.IH)
  finally have tl: "map (newRef (x # xs) r) xs = [Suc r ..< Suc r + length xs]" .
  have "[r ..< r + length (x # xs)] = r # [Suc r ..< r + length (x # xs)]"
    by (rule upt_conv_Cons) simp
  also have "\<dots> = r # [Suc r ..< Suc r + length xs]" by simp
  finally have up: "[r ..< r + length (x # xs)] = r # [Suc r ..< Suc r + length xs]" .
  have "map (newRef (x # xs) r) (x # xs) = r # map (newRef (x # xs) r) xs" by simp
  then show ?case unfolding tl up .
qed




lemma evolves_names: "evolves a b \<Longrightarrow> map inputName (inputs (b ref)) = map inputName (inputs (a ref))"
  by (simp add: evolves_def)

lemma evolves_length: "evolves a b \<Longrightarrow> length (inputs (b ref)) = length (inputs (a ref))"
  using evolves_names[of a b ref] by (metis length_map)

lemma evolves_keeps:
  "evolves a b \<Longrightarrow> j < length (inputs (a ref)) \<Longrightarrow> connectedPoint (inputs (a ref) ! j) = Some p
     \<Longrightarrow> connectedPoint (inputs (b ref) ! j) = Some p"
  by (simp add: evolves_def)








lemma unconnected_subset:
  "unconnected list f st \<subseteq> (SIGMA b:set list. {..<length (inputs (st (f b)))})"
  by (auto simp: unconnected_def)

lemma finite_unconnected: "finite (unconnected list f st)"
  by (rule finite_subset[OF unconnected_subset]) simp


lemma evolves_unconnected:
  assumes "evolves a b"
  shows "unconnected list f b \<subseteq> unconnected list f a"
proof
  fix x assume "x \<in> unconnected list f b"
  then obtain c j where x: "x = (c, j)" and c: "c \<in> set list"
    and j: "j < length (inputs (b (f c)))" and n: "connectedPoint (inputs (b (f c)) ! j) = None"
    by (auto simp: unconnected_def)
  have ja: "j < length (inputs (a (f c)))" using j evolves_length[OF assms, of "f c"] by simp
  have "connectedPoint (inputs (a (f c)) ! j) = None"
  proof (rule ccontr)
    assume "connectedPoint (inputs (a (f c)) ! j) \<noteq> None"
    then obtain p where "connectedPoint (inputs (a (f c)) ! j) = Some p" by blast
    from evolves_keeps[OF assms ja this] n show False by simp
  qed
  with x c ja show "x \<in> unconnected list f a" by (simp add: unconnected_def)
qed

lemma evolves_measure: "evolves a b \<Longrightarrow> card (unconnected list f b) \<le> card (unconnected list f a)"
  by (rule card_mono[OF finite_unconnected evolves_unconnected])


















































end
